theory Spec2Isabelle
  imports Complex_Main
begin

section \<open>The work divider of artillery (lib/dist.js)\<close>

text \<open>
  \<^verbatim>\<open>divideWork(script, numWorkers)\<close> turns one load-test script into one script per
  worker. The model follows \<^verbatim>\<open>packages/artillery/lib/dist.js\<close> line by line.

  JavaScript numbers are modelled as exact rationals: every finite double is a rational,
  and \<^verbatim>\<open>+\<close>, \<^verbatim>\<open>/\<close>, \<^verbatim>\<open>%\<close>, \<^verbatim>\<open>Math.floor\<close> are taken without IEEE rounding.
  \<^verbatim>\<open>NaN\<close> and the infinities are not values of the model; the only place where the
  source could compute one (a division by a worker count that is not positive) never
  uses the quotient, because the loops that would read it run zero times.
  A property that is \<^verbatim>\<open>undefined\<close> or missing is \<open>None\<close>.

  Objects are values: the phase objects of the input are taken to be distinct objects,
  as they are when the script comes out of a parser, so that a write to one phase is a
  write to one position of the list.
\<close>

subsection \<open>Errors\<close>

datatype error =
    AssertionError   \<comment> \<open>\<^verbatim>\<open>assert(m === sum(result))\<close> in \<^verbatim>\<open>distribute\<close>\<close>
  | TypeError        \<comment> \<open>a property access on \<^verbatim>\<open>undefined\<close>\<close>

subsection \<open>Numeric helpers\<close>

text \<open>\<^verbatim>\<open>function sum(a)\<close>: the loop \<^verbatim>\<open>result += a[i]\<close> from \<open>0\<close>.\<close>

definition sum_js :: "rat list \<Rightarrow> rat" where
  "sum_js a = foldl (+) 0 a"

text \<open>
  The JavaScript remainder \<^verbatim>\<open>m % n\<close>: the quotient is truncated towards zero, so the
  result has the sign of \<open>m\<close>.
\<close>

definition truncate_js :: "rat \<Rightarrow> int" where
  "truncate_js x = (if 0 \<le> x then \<lfloor>x\<rfloor> else \<lceil>x\<rceil>)"

definition rem_js :: "rat \<Rightarrow> rat \<Rightarrow> rat" where
  "rem_js m n = m - n * of_int (truncate_js (m / n))"

subsection \<open>distributeEven and distribute\<close>

text \<open>
  \<^verbatim>\<open>distributeEven(m, n)\<close> pushes \<^verbatim>\<open>m/n\<close> while \<^verbatim>\<open>i < n\<close>, that is \<open>nat n\<close> times
  (no time at all for \<open>n \<le> 0\<close>).
\<close>

definition distributeEven :: "rat \<Rightarrow> int \<Rightarrow> rat list" where
  "distributeEven m n = replicate (nat n) (m / of_int n)"

text \<open>
  The loop of the \<^verbatim>\<open>else\<close> branch of \<^verbatim>\<open>distribute\<close>: each round pushes
  \<^verbatim>\<open>baseCount\<close> and, while \<^verbatim>\<open>extraItems > 0\<close>, increments the pushed entry and
  decrements \<^verbatim>\<open>extraItems\<close>. The first argument counts the rounds left.
\<close>

fun distributeLoop :: "nat \<Rightarrow> rat \<Rightarrow> rat \<Rightarrow> rat list" where
  "distributeLoop 0 baseCount extraItems = []"
| "distributeLoop (Suc k) baseCount extraItems =
     (if extraItems > 0 then (baseCount + 1) # distributeLoop k baseCount (extraItems - 1)
      else baseCount # distributeLoop k baseCount extraItems)"

text \<open>
  \<^verbatim>\<open>distribute(m, n)\<close>. The final \<^verbatim>\<open>assert\<close> throws when the entries do not sum
  to \<open>m\<close>.
\<close>

definition distribute :: "rat \<Rightarrow> int \<Rightarrow> error + rat list" where
  "distribute m n =
     (let result =
        (if m < of_int n then map (\<lambda>i. if of_nat i < m then 1 else 0) [0..<nat n]
         else distributeLoop (nat n) (of_int \<lfloor>m / of_int n\<rfloor>) (rem_js m (of_int n)))
      in if m = sum_js result then Inr result else Inl AssertionError)"

subsection \<open>Scripts and phases\<close>

text \<open>
  A phase object. The fields that \<^verbatim>\<open>divideWork\<close> reads or writes are numbers
  (\<open>name\<close> is a string); \<open>rest\<close> stands for whatever other properties the object
  carries, which the code never looks at (\<open>None\<close>: there are none).
\<close>

record 'o phase =
  name :: "string option"
  duration :: "rat option"
  arrivalRate :: "rat option"
  rampTo :: "rat option"
  arrivalCount :: "rat option"
  maxVusers :: "rat option"
  pause :: "rat option"
  totalWorkers :: "rat option"
  worker :: "rat option"
  rest :: "'o option"

text \<open>
  \<^verbatim>\<open>script.config\<close> and the script itself. \<open>configRest\<close> and \<open>scriptRest\<close> are the
  properties other than \<^verbatim>\<open>phases\<close>, \<^verbatim>\<open>before\<close> and \<^verbatim>\<open>after\<close> (target, scenarios, ...).
  \<open>phases = None\<close> is \<^verbatim>\<open>config.phases === undefined\<close>, which \<^verbatim>\<open>divideWork\<close> itself
  produces when the worker count is negative.
\<close>

record 'o config =
  phases :: "'o phase list option"
  configRest :: 'o

record 'o script =
  config :: "'o config"
  before :: "'o option"
  after :: "'o option"
  scriptRest :: 'o

subsection \<open>Truthiness and array reads\<close>

text \<open>
  \<^verbatim>\<open>if (phase.f)\<close> on a numeric property: the branch is taken when the property is a
  number other than \<open>0\<close>. \<open>truthyNum\<close> returns that number, and \<open>None\<close> when the
  test fails.
\<close>

definition truthyNum :: "rat option \<Rightarrow> rat option" where
  "truthyNum v = (case v of None \<Rightarrow> None | Some x \<Rightarrow> if x \<noteq> 0 then Some x else None)"

definition truthy :: "rat option \<Rightarrow> bool" where
  "truthy v = (truthyNum v \<noteq> None)"

text \<open>\<^verbatim>\<open>v || 0\<close>.\<close>

definition orZero :: "rat option \<Rightarrow> rat" where
  "orZero v = (case truthyNum v of Some x \<Rightarrow> x | None \<Rightarrow> 0)"

text \<open>\<^verbatim>\<open>a[i]\<close> read from an array: \<^verbatim>\<open>undefined\<close> outside the array.\<close>

definition nthOpt :: "'a list \<Rightarrow> nat \<Rightarrow> 'a option" where
  "nthOpt a i = (if i < length a then Some (a ! i) else None)"

subsection \<open>Writes into \<^verbatim>\<open>newPhases\<close>\<close>

text \<open>
  \<^verbatim>\<open>newPhases[i][phaseSpecIndex].f = v\<close>: the phase object is updated in place by \<open>f\<close>.
  When \<^verbatim>\<open>newPhases[i]\<close> or \<^verbatim>\<open>newPhases[i][phaseSpecIndex]\<close> is \<^verbatim>\<open>undefined\<close> the
  access throws a \<^verbatim>\<open>TypeError\<close>.
\<close>

definition setProps ::
  "nat \<Rightarrow> nat \<Rightarrow> ('o phase \<Rightarrow> 'o phase) \<Rightarrow> 'o phase list list \<Rightarrow> error + 'o phase list list" where
  "setProps i phaseSpecIndex f np =
     (if i < length np \<and> phaseSpecIndex < length (np ! i)
      then Inr (np[i := (np ! i)[phaseSpecIndex := f (np ! i ! phaseSpecIndex)]])
      else Inl TypeError)"

text \<open>
  \<^verbatim>\<open>newPhases[i][phaseSpecIndex] = v\<close>: the array element is replaced. It throws when
  \<^verbatim>\<open>newPhases[i]\<close> is \<^verbatim>\<open>undefined\<close>. A \<open>phaseSpecIndex\<close> beyond the row would make
  JavaScript extend the row with holes, which a list cannot hold; the model leaves the
  row as it is there. Lemma \<open>adjustPhases_frame\<close> below shows that every row keeps the
  length of the phase list, so the case never arises in \<^verbatim>\<open>divideWork\<close>.
\<close>

definition setElem ::
  "nat \<Rightarrow> nat \<Rightarrow> 'o phase \<Rightarrow> 'o phase list list \<Rightarrow> error + 'o phase list list" where
  "setElem i phaseSpecIndex v np =
     (if i < length np then Inr (np[i := (np ! i)[phaseSpecIndex := v]]) else Inl TypeError)"

text \<open>A loop over indices whose body may throw: the first error ends it.\<close>

fun eachIndex :: "(nat \<Rightarrow> 'a \<Rightarrow> error + 'a) \<Rightarrow> nat list \<Rightarrow> 'a \<Rightarrow> error + 'a" where
  "eachIndex f [] a = Inr a"
| "eachIndex f (i # is) a = (case f i a of Inl e \<Rightarrow> Inl e | Inr a' \<Rightarrow> eachIndex f is a')"

subsection \<open>The callback of \<^verbatim>\<open>L.each(script.config.phases, ...)\<close>\<close>

text \<open>
  The chain of \<^verbatim>\<open>if\<close>s at the head of the callback, in the order of the source. Each
  constructor carries the number whose truthiness selected the branch.
\<close>

datatype dispatch =
    Ramp rat       \<comment> \<open>\<^verbatim>\<open>if (phase.rampTo)\<close>\<close>
  | Rate rat       \<comment> \<open>\<^verbatim>\<open>if (phase.arrivalRate && !phase.rampTo)\<close>\<close>
  | Count rat      \<comment> \<open>\<^verbatim>\<open>if (phase.arrivalCount)\<close>\<close>
  | Paused rat     \<comment> \<open>\<^verbatim>\<open>if (phase.pause)\<close>\<close>
  | Unknown        \<comment> \<open>the \<^verbatim>\<open>console.log\<close> at the end\<close>

definition dispatchPhase :: "'o phase \<Rightarrow> dispatch" where
  "dispatchPhase p =
     (case truthyNum (rampTo p) of Some r \<Rightarrow> Ramp r | None \<Rightarrow>
      (case (if \<not> truthy (rampTo p) then truthyNum (arrivalRate p) else None) of Some a \<Rightarrow> Rate a | None \<Rightarrow>
       (case truthyNum (arrivalCount p) of Some c \<Rightarrow> Count c | None \<Rightarrow>
        (case truthyNum (pause p) of Some d \<Rightarrow> Paused d | None \<Rightarrow> Unknown))))"

text \<open>
  \<^verbatim>\<open>phase.maxVusers ? distribute(phase.maxVusers, activeWorkers) : false\<close>; \<open>None\<close> is
  \<^verbatim>\<open>false\<close>. An array, even an empty one, is truthy in the later \<^verbatim>\<open>if (maxVusers)\<close>.
\<close>

definition capShares :: "rat option \<Rightarrow> nat \<Rightarrow> error + rat list option" where
  "capShares mv activeWorkers =
     (case truthyNum mv of None \<Rightarrow> Inr None
      | Some v \<Rightarrow> (case distribute v (int activeWorkers) of Inl e \<Rightarrow> Inl e | Inr xs \<Rightarrow> Inr (Some xs)))"

text \<open>The bodies of the two \<^verbatim>\<open>L.each(rates, function (Lr, i) ...)\<close> loops.\<close>

definition rampWrite ::
  "rat list \<Rightarrow> rat list \<Rightarrow> rat list option \<Rightarrow> nat \<Rightarrow> nat \<Rightarrow> 'o phase list list \<Rightarrow> error + 'o phase list list" where
  "rampWrite rates ramps maxVusersShares phaseSpecIndex i np =
     setProps i phaseSpecIndex
       (\<lambda>p. let p' = p\<lparr>arrivalRate := nthOpt rates i, rampTo := nthOpt ramps i\<rparr>
            in (case maxVusersShares of None \<Rightarrow> p' | Some mv \<Rightarrow> p'\<lparr>maxVusers := nthOpt mv i\<rparr>)) np"

definition rateWrite ::
  "rat list \<Rightarrow> rat list option \<Rightarrow> nat \<Rightarrow> nat \<Rightarrow> 'o phase list list \<Rightarrow> error + 'o phase list list" where
  "rateWrite rates maxVusersShares phaseSpecIndex i np =
     setProps i phaseSpecIndex
       (\<lambda>p. let p' = p\<lparr>arrivalRate := nthOpt rates i\<rparr>
            in (case maxVusersShares of None \<Rightarrow> p' | Some mv \<Rightarrow> p'\<lparr>maxVusers := Some (orZero (nthOpt mv i))\<rparr>)) np"

text \<open>The object literal \<^verbatim>\<open>{ name: phase.name, pause: phase.duration }\<close>.\<close>

definition pauseOf :: "'o phase \<Rightarrow> 'o phase" where
  "pauseOf p =
     \<lparr>name = name p, duration = None, arrivalRate = None, rampTo = None, arrivalCount = None,
      maxVusers = None, pause = duration p, totalWorkers = None, worker = None, rest = None\<rparr>"

text \<open>
  The state of the loop over the phases: \<open>srcPhases\<close> is \<^verbatim>\<open>script.config.phases\<close>, the
  caller's own objects; \<open>newPhases\<close> is the local array of per-worker copies;
  \<open>console\<close> collects the phases printed by \<^verbatim>\<open>console.log\<close>.
\<close>

record 'o loopState =
  srcPhases :: "'o phase list"
  newPhases :: "'o phase list list"
  console :: "'o phase list"

text \<open>
  One call of the callback, for the phase at \<open>phaseSpecIndex\<close> (\<^verbatim>\<open>L.each\<close> only passes
  indices inside the array). The result is the state after the call and the error
  thrown, if any. What a throwing call had already written to the caller's phase stays
  written; its writes to the local \<^verbatim>\<open>newPhases\<close> are never seen, and the state returned
  carries \<^verbatim>\<open>newPhases\<close> as it was before the call.
\<close>

definition adjustPhase :: "int \<Rightarrow> nat \<Rightarrow> 'o loopState \<Rightarrow> 'o loopState \<times> error option" where
  "adjustPhase numWorkers phaseSpecIndex st =
     (let p = srcPhases st ! phaseSpecIndex in
      case dispatchPhase p of
        Ramp r \<Rightarrow>
          (let a = orZero (arrivalRate p);
               st1 = st\<lparr>srcPhases := (srcPhases st)[phaseSpecIndex := p\<lparr>arrivalRate := Some a\<rparr>]\<rparr>;
               rates = distributeEven a numWorkers;
               ramps = distributeEven r numWorkers;
               activeWorkers = max (length (filter (\<lambda>r. r > 0) rates)) (length (filter (\<lambda>r. r > 0) ramps))
           in (case capShares (maxVusers p) activeWorkers of
                 Inl e \<Rightarrow> (st1, Some e)
               | Inr mv \<Rightarrow>
                  (case eachIndex (rampWrite rates ramps mv phaseSpecIndex) [0..<length rates] (newPhases st1) of
                     Inl e \<Rightarrow> (st1, Some e)
                   | Inr np \<Rightarrow> (st1\<lparr>newPhases := np\<rparr>, None))))
      | Rate a \<Rightarrow>
          (case distribute a numWorkers of
             Inl e \<Rightarrow> (st, Some e)
           | Inr rates \<Rightarrow>
              (let activeWorkers = length (filter (\<lambda>r. r > 0) rates)
               in (case capShares (maxVusers p) activeWorkers of
                     Inl e \<Rightarrow> (st, Some e)
                   | Inr mv \<Rightarrow>
                      (case eachIndex (rateWrite rates mv phaseSpecIndex) [0..<length rates] (newPhases st) of
                         Inl e \<Rightarrow> (st, Some e)
                       | Inr np \<Rightarrow> (st\<lparr>newPhases := np\<rparr>, None)))))
      | Count c \<Rightarrow>
          (case (if truthy (maxVusers p)
                 then setProps 0 phaseSpecIndex (\<lambda>q. q\<lparr>maxVusers := maxVusers p\<rparr>) (newPhases st)
                 else Inr (newPhases st)) of
             Inl e \<Rightarrow> (st, Some e)
           | Inr np0 \<Rightarrow>
              (case eachIndex (\<lambda>i. setElem i phaseSpecIndex (pauseOf p)) [1..<nat numWorkers] np0 of
                 Inl e \<Rightarrow> (st, Some e)
               | Inr np \<Rightarrow> (st\<lparr>newPhases := np\<rparr>, None)))
      | Paused d \<Rightarrow> (st, None)
      | Unknown \<Rightarrow> (st\<lparr>console := console st @ [p]\<rparr>, None))"

text \<open>\<^verbatim>\<open>L.each\<close> over the phase indices; a throwing call ends the loop.\<close>

fun adjustPhases :: "int \<Rightarrow> nat list \<Rightarrow> 'o loopState \<Rightarrow> 'o loopState \<times> error option" where
  "adjustPhases numWorkers [] st = (st, None)"
| "adjustPhases numWorkers (i # is) st =
     (case adjustPhase numWorkers i st of
        (st', Some e) \<Rightarrow> (st', Some e)
      | (st', None) \<Rightarrow> adjustPhases numWorkers is st')"

subsection \<open>Building the scripts, filtering, annotating\<close>

text \<open>
  \<^verbatim>\<open>L.range(0, numWorkers)\<close>: \<open>0, 1, ..., numWorkers - 1\<close>, and for a negative
  \<open>numWorkers\<close> lodash counts down, \<open>0, -1, ..., numWorkers + 1\<close>.
\<close>

definition range0 :: "int \<Rightarrow> int list" where
  "range0 n = (if 0 \<le> n then map int [0..<nat n] else map (\<lambda>k. - int k) [0..<nat (- n)])"

text \<open>\<^verbatim>\<open>newPhases[i]\<close> for an integer \<open>i\<close>: \<^verbatim>\<open>undefined\<close> outside the array.\<close>

definition rowAt :: "'o phase list option list \<Rightarrow> int \<Rightarrow> 'o phase list option" where
  "rowAt np i = (if 0 \<le> i \<and> nat i < length np then np ! nat i else None)"

text \<open>
  The \<^verbatim>\<open>L.map\<close> that creates the new scripts: a deep copy of the script with the
  worker's phases and without the hooks. In HOL a value is its own deep copy.
\<close>

definition makeScripts :: "'o script \<Rightarrow> 'o phase list option list \<Rightarrow> int \<Rightarrow> 'o script list" where
  "makeScripts script np numWorkers =
     map (\<lambda>i. script\<lparr>config := (config script)\<lparr>phases := rowAt np i\<rparr>, before := None, after := None\<rparr>)
       (range0 numWorkers)"

text \<open>
  What a call leaves behind: the caller's script after the call, the phases printed,
  and the value returned or the error thrown.
\<close>

record ('o, 'r) outcome =
  input :: "'o script"
  printed :: "'o phase list"
  result :: "error + 'r"

text \<open>
  \<^verbatim>\<open>divideWork\<close> up to the variable \<^verbatim>\<open>newScripts\<close> (lines 17 to 98 of the source):
  \<open>numWorkers\<close> copies of the phase list, the loop over the phases, the new scripts.
\<close>

definition newScripts :: "'o script \<Rightarrow> int \<Rightarrow> ('o, 'o script list) outcome" where
  "newScripts script numWorkers =
     (case phases (config script) of
        None \<Rightarrow>
          \<lparr>input = script, printed = [],
           result = Inr (makeScripts script (replicate (nat numWorkers) None) numWorkers)\<rparr>
      | Some ps \<Rightarrow>
          (case adjustPhases numWorkers [0..<length ps]
                  \<lparr>srcPhases = ps, newPhases = replicate (nat numWorkers) ps, console = []\<rparr> of
             (st, err) \<Rightarrow>
               (let script' = script\<lparr>config := (config script)\<lparr>phases := Some (srcPhases st)\<rparr>\<rparr>
                in \<lparr>input = script', printed = console st,
                    result = (case err of
                                Some e \<Rightarrow> Inl e
                              | None \<Rightarrow> Inr (makeScripts script' (map Some (newPhases st)) numWorkers))\<rparr>)))"

text \<open>
  The filter loop: a script stays unless all its phases are idle. \<^verbatim>\<open>L.every\<close> of
  \<^verbatim>\<open>undefined\<close> is \<^verbatim>\<open>true\<close>. \<open>isIdle\<close> is \<^verbatim>\<open>isIdlePhase\<close> of the package
  \<^verbatim>\<open>@artilleryio/int-core\<close>.
\<close>

definition allIdle :: "('o phase \<Rightarrow> bool) \<Rightarrow> 'o script \<Rightarrow> bool" where
  "allIdle isIdle s = (case phases (config s) of None \<Rightarrow> True | Some ps \<Rightarrow> list_all isIdle ps)"

definition survivors :: "('o phase \<Rightarrow> bool) \<Rightarrow> 'o script list \<Rightarrow> 'o script list" where
  "survivors isIdle ss = filter (\<lambda>s. \<not> allIdle isIdle s) ss"

text \<open>
  The annotation loop \<^verbatim>\<open>result.forEach\<close>: \<open>len\<close> is \<^verbatim>\<open>result.length\<close> and \<open>k\<close> the
  counter \<^verbatim>\<open>activeWorkers\<close>. \<^verbatim>\<open>r.config.phases.forEach\<close> throws on \<^verbatim>\<open>undefined\<close>.
\<close>

definition annotatePhase :: "rat \<Rightarrow> rat \<Rightarrow> 'o phase \<Rightarrow> 'o phase" where
  "annotatePhase len k p = p\<lparr>totalWorkers := Some len, worker := Some k\<rparr>"

fun annotate :: "rat \<Rightarrow> rat \<Rightarrow> 'o script list \<Rightarrow> error + 'o script list" where
  "annotate len k [] = Inr []"
| "annotate len k (r # rs) =
     (case phases (config r) of
        None \<Rightarrow> Inl TypeError
      | Some ps \<Rightarrow>
          (case annotate len (k + 1) rs of
             Inl e \<Rightarrow> Inl e
           | Inr rs' \<Rightarrow> Inr (r\<lparr>config := (config r)\<lparr>phases := Some (map (annotatePhase len k) ps)\<rparr>\<rparr> # rs')))"

text \<open>\<^verbatim>\<open>divideWork\<close>, with \<^verbatim>\<open>isIdlePhase\<close> as a parameter.\<close>

definition divideWorkWith ::
  "('o phase \<Rightarrow> bool) \<Rightarrow> 'o script \<Rightarrow> int \<Rightarrow> ('o, 'o script list) outcome" where
  "divideWorkWith isIdle script numWorkers =
     (let b = newScripts script numWorkers
      in b\<lparr>result :=
            (case result b of
               Inl e \<Rightarrow> Inl e
             | Inr ss \<Rightarrow> (let res = survivors isIdle ss in annotate (of_nat (length res)) 1 res))\<rparr>)"

subsection \<open>The kinds of phase, as the specification words them\<close>

text \<open>
  The specification determines the kind of a phase "by which fields are present; the
  test order is: ramping check first (rampTo present), then constant-rate (arrivalRate
  present, rampTo absent), then fixed-count (arrivalCount present), then pause, else
  unknown". \<open>specKind\<close> follows these words, to be compared with \<open>dispatchPhase\<close>,
  which follows the source.
\<close>

datatype kind = RampingRate | ConstantRate | FixedCount | Pause | UnknownPhase

definition specKind :: "'o phase \<Rightarrow> kind" where
  "specKind p =
     (if rampTo p \<noteq> None then RampingRate
      else if arrivalRate p \<noteq> None then ConstantRate
      else if arrivalCount p \<noteq> None then FixedCount
      else if pause p \<noteq> None then Pause
      else UnknownPhase)"

subsection \<open>The idle test\<close>

text \<open>
  Modelled from the spec: \<^verbatim>\<open>isIdlePhase\<close> is imported from the package
  \<^verbatim>\<open>@artilleryio/int-core\<close>, and its source is not among the sources of this package.
  The specification calls a phase load-free when it is "a Pause phase, or any
  rate/ramp/count phase whose effective load for this worker is zero".
\<close>

definition isIdlePhase :: "'o phase \<Rightarrow> bool" where
  "isIdlePhase p =
     (case specKind p of
        Pause \<Rightarrow> True
      | RampingRate \<Rightarrow> orZero (arrivalRate p) = 0 \<and> orZero (rampTo p) = 0
      | ConstantRate \<Rightarrow> orZero (arrivalRate p) = 0
      | FixedCount \<Rightarrow> orZero (arrivalCount p) = 0
      | UnknownPhase \<Rightarrow> False)"

text \<open>\<^verbatim>\<open>divideWork\<close> with this idle test.\<close>

definition divideWork :: "'o script \<Rightarrow> int \<Rightarrow> ('o, 'o script list) outcome" where
  "divideWork = divideWorkWith isIdlePhase"

section \<open>Notions used in the statements and proofs\<close>

text \<open>
  Line 29 of the source, \<^verbatim>\<open>phase.arrivalRate = phase.arrivalRate || 0\<close>, under the
  guard \<^verbatim>\<open>if (phase.rampTo)\<close> of line 26: what the callback does to the phase object
  it is given, which is the caller's.
\<close>

definition normalised :: "'o phase \<Rightarrow> 'o phase" where
  "normalised ph = (if truthy (rampTo ph) then ph\<lparr>arrivalRate := Some (orZero (arrivalRate ph))\<rparr> else ph)"

text \<open>The state in which the loop over the phases starts (lines 17 to 20).\<close>

definition initialState :: "'o phase list \<Rightarrow> int \<Rightarrow> 'o loopState" where
  "initialState ps n = \<lparr>srcPhases = ps, newPhases = replicate (nat n) ps, console = []\<rparr>"

text \<open>The read \<^verbatim>\<open>s.config.phases[p]\<close>.\<close>

definition phaseAt :: "'o script \<Rightarrow> nat \<Rightarrow> 'o phase option" where
  "phaseAt s p = (case phases (config s) of None \<Rightarrow> None | Some ps \<Rightarrow> nthOpt ps p)"

text \<open>
  The invariant of the loop: \<^verbatim>\<open>newPhases\<close> has one row per worker, and every row is as
  long as the phase list.
\<close>

definition shaped :: "int \<Rightarrow> 'o loopState \<Rightarrow> bool" where
  "shaped n st \<longleftrightarrow>
     length (newPhases st) = nat n \<and> (\<forall>row\<in>set (newPhases st). length row = length (srcPhases st))"

text \<open>Column \<open>idx\<close> of \<^verbatim>\<open>newPhases\<close> rewritten: worker \<open>i\<close>'s entry \<open>q\<close> becomes \<open>W i q\<close>.\<close>

definition writeColumn :: "nat \<Rightarrow> (nat \<Rightarrow> 'o phase \<Rightarrow> 'o phase) \<Rightarrow> 'o phase list list \<Rightarrow> 'o phase list list" where
  "writeColumn idx W np = map (\<lambda>i. (np ! i)[idx := W i (np ! i ! idx)]) [0..<length np]"

text \<open>The kind of phase that each branch of the callback treats.\<close>

definition kindOf :: "dispatch \<Rightarrow> kind" where
  "kindOf d = (case d of Ramp r \<Rightarrow> RampingRate | Rate a \<Rightarrow> ConstantRate | Count c \<Rightarrow> FixedCount
               | Paused t \<Rightarrow> Pause | Unknown \<Rightarrow> UnknownPhase)"

text \<open>
  The phases whose call reads a worker that a count of zero or less does not provide:
  the integer split of a non-zero number over no worker fails its assertion, and
  \<^verbatim>\<open>newPhases[0]\<close> is \<^verbatim>\<open>undefined\<close>.
\<close>

definition needsWorker :: "'o phase \<Rightarrow> bool" where
  "needsWorker ph =
     (case dispatchPhase ph of
        Ramp r \<Rightarrow> truthy (maxVusers ph)
      | Rate a \<Rightarrow> True
      | Count c \<Rightarrow> truthy (maxVusers ph)
      | Paused d \<Rightarrow> False
      | Unknown \<Rightarrow> False)"



text \<open>Example inputs: the empty object \<^verbatim>\<open>{}\<close> and a script around a phase list.\<close>

definition emptyPhase :: "string phase" where
  "emptyPhase = \<lparr>name = None, duration = None, arrivalRate = None, rampTo = None, arrivalCount = None,
      maxVusers = None, pause = None, totalWorkers = None, worker = None, rest = None\<rparr>"

definition scriptOf :: "string phase list \<Rightarrow> string script" where
  "scriptOf ps = \<lparr>config = \<lparr>phases = Some ps, configRest = ''target''\<rparr>,
      before = Some ''before hook'', after = Some ''after hook'', scriptRest = ''scenarios''\<rparr>"

section \<open>Lemmas\<close>

subsection \<open>Integer split\<close>








text \<open>Some of the calls that the source file makes when it is run as a program.\<close>

lemma distribute_examples:
  "distribute 1 4 = Inr [1, 0, 0, 0]"
  "distribute 4 4 = Inr [1, 1, 1, 1]"
  "distribute 20 3 = Inr [7, 7, 6]"
  "distribute 61 4 = Inr [16, 15, 15, 15]"
  "distribute 700 29 = Inr (replicate 4 25 @ replicate 25 24)"
  by code_simp+

subsection \<open>Loops over worker indices\<close>

lemma eachIndex_setProps:
  assumes "distinct is" "\<forall>i\<in>set is. i < length np" "\<forall>row\<in>set np. idx < length row"
  shows "eachIndex (\<lambda>i. setProps i idx (F i)) is np =
           Inr (map (\<lambda>i. if i \<in> set is then (np ! i)[idx := F i (np ! i ! idx)] else np ! i) [0..<length np])"
  using assms
proof (induction "is" arbitrary: np)
  case Nil
  then show ?case by (simp add: map_nth)
next
  case (Cons i "is")
  let ?np1 = "np[i := (np ! i)[idx := F i (np ! i ! idx)]]"
  have i: "i < length np" "idx < length (np ! i)" "i \<notin> set is" using Cons.prems by auto
  have step: "setProps i idx (F i) np = Inr ?np1" using i by (simp add: setProps_def)
  have rows: "\<forall>row\<in>set ?np1. idx < length row"
    using Cons.prems(3) i by (auto dest!: set_update_subset_insert [THEN subsetD])
  have "eachIndex (\<lambda>i. setProps i idx (F i)) is ?np1 =
          Inr (map (\<lambda>j. if j \<in> set is then (?np1 ! j)[idx := F j (?np1 ! j ! idx)] else ?np1 ! j) [0..<length ?np1])"
    using Cons.prems i rows by (intro Cons.IH) auto
  also have "map (\<lambda>j. if j \<in> set is then (?np1 ! j)[idx := F j (?np1 ! j ! idx)] else ?np1 ! j) [0..<length ?np1]
      = map (\<lambda>j. if j \<in> set (i # is) then (np ! j)[idx := F j (np ! j ! idx)] else np ! j) [0..<length np]"
    using i by (auto simp: nth_list_update)
  finally show ?case using step by simp
qed

lemma eachIndex_setElem:
  assumes "distinct is" "\<forall>i\<in>set is. i < length np"
  shows "eachIndex (\<lambda>i. setElem i idx v) is np =
           Inr (map (\<lambda>i. if i \<in> set is then (np ! i)[idx := v] else np ! i) [0..<length np])"
  using assms
proof (induction "is" arbitrary: np)
  case Nil
  then show ?case by (simp add: map_nth)
next
  case (Cons i "is")
  let ?np1 = "np[i := (np ! i)[idx := v]]"
  have i: "i < length np" "i \<notin> set is" using Cons.prems by auto
  have step: "setElem i idx v np = Inr ?np1" using i by (simp add: setElem_def)
  have "eachIndex (\<lambda>i. setElem i idx v) is ?np1 =
          Inr (map (\<lambda>j. if j \<in> set is then (?np1 ! j)[idx := v] else ?np1 ! j) [0..<length ?np1])"
    using Cons.prems i by (intro Cons.IH) auto
  also have "map (\<lambda>j. if j \<in> set is then (?np1 ! j)[idx := v] else ?np1 ! j) [0..<length ?np1]
      = map (\<lambda>j. if j \<in> set (i # is) then (np ! j)[idx := v] else np ! j) [0..<length np]"
    using i by (auto simp: nth_list_update)
  finally show ?case using step by simp
qed

subsection \<open>The branches of the callback\<close>

lemma length_distributeEven [simp]: "length (distributeEven m n) = nat n"
  by (simp add: distributeEven_def)

lemma eachIndex_setProps_upt:
  assumes "length np = k" "\<forall>row\<in>set np. idx < length row"
  shows "eachIndex (\<lambda>i. setProps i idx (F i)) [0..<k] np = Inr (writeColumn idx F np)"
proof -
  have "eachIndex (\<lambda>i. setProps i idx (F i)) [0..<k] np =
          Inr (map (\<lambda>i. if i \<in> set [0..<k] then (np ! i)[idx := F i (np ! i ! idx)] else np ! i) [0..<length np])"
    using assms by (intro eachIndex_setProps) auto
  also have "map (\<lambda>i. if i \<in> set [0..<k] then (np ! i)[idx := F i (np ! i ! idx)] else np ! i) [0..<length np]
      = writeColumn idx F np"
    using assms(1) by (auto simp: writeColumn_def)
  finally show ?thesis .
qed

lemma length_distributeLoop [simp]: "length (distributeLoop k b e) = k"
  by (induction k arbitrary: e) simp_all

lemma distribute_length:
  assumes "distribute m n = Inr xs"
  shows "length xs = nat n"
proof -
  let ?r = "if m < of_int n then map (\<lambda>i. if of_nat i < m then 1 else 0) [0..<nat n]
            else distributeLoop (nat n) (of_int \<lfloor>m / of_int n\<rfloor>) (rem_js m (of_int n))"
  have "length ?r = nat n" by simp
  moreover have "xs = ?r" using assms by (simp add: distribute_def Let_def split: if_splits)
  ultimately show ?thesis by simp
qed

lemma adjustPhase_Ramp:
  assumes d: "dispatchPhase (srcPhases st ! idx) = Ramp r"
    and sh: "shaped n st" and idx: "idx < length (srcPhases st)"
  shows "adjustPhase n idx st =
     (let p = srcPhases st ! idx;
          a = orZero (arrivalRate p);
          st1 = st\<lparr>srcPhases := (srcPhases st)[idx := p\<lparr>arrivalRate := Some a\<rparr>]\<rparr>;
          rates = distributeEven a n;
          ramps = distributeEven r n;
          activeWorkers = max (length (filter (\<lambda>r. r > 0) rates)) (length (filter (\<lambda>r. r > 0) ramps))
      in (case capShares (maxVusers p) activeWorkers of
            Inl e \<Rightarrow> (st1, Some e)
          | Inr mv \<Rightarrow>
              (st1\<lparr>newPhases := writeColumn idx
                 (\<lambda>i q. let q' = q\<lparr>arrivalRate := nthOpt rates i, rampTo := nthOpt ramps i\<rparr>
                        in (case mv of None \<Rightarrow> q' | Some xs \<Rightarrow> q'\<lparr>maxVusers := nthOpt xs i\<rparr>)) (newPhases st)\<rparr>, None)))"
proof -
  have rows: "\<forall>row\<in>set (newPhases st). idx < length row"
    using sh idx by (simp add: shaped_def)
  have len: "length (newPhases st) = nat n" using sh by (simp add: shaped_def)
  have loop: "eachIndex (rampWrite rates ramps mv idx) [0..<nat n] (newPhases st)
      = Inr (writeColumn idx (\<lambda>i q. let q' = q\<lparr>arrivalRate := nthOpt rates i, rampTo := nthOpt ramps i\<rparr>
                        in (case mv of None \<Rightarrow> q' | Some xs \<Rightarrow> q'\<lparr>maxVusers := nthOpt xs i\<rparr>)) (newPhases st))"
    for rates ramps mv
  proof -
    have eq: "rampWrite rates ramps mv idx = (\<lambda>i. setProps i idx (\<lambda>q. let q' = q\<lparr>arrivalRate := nthOpt rates i, rampTo := nthOpt ramps i\<rparr>
                        in (case mv of None \<Rightarrow> q' | Some xs \<Rightarrow> q'\<lparr>maxVusers := nthOpt xs i\<rparr>)))"
      by (rule ext)+ (simp add: rampWrite_def)
    show ?thesis
      unfolding eq by (rule eachIndex_setProps_upt [OF len rows])
  qed
  show ?thesis
    using d by (simp add: adjustPhase_def Let_def loop split: sum.splits)
qed

lemma adjustPhase_Rate:
  assumes d: "dispatchPhase (srcPhases st ! idx) = Rate a"
    and sh: "shaped n st" and idx: "idx < length (srcPhases st)"
  shows "adjustPhase n idx st =
     (let p = srcPhases st ! idx in
      case distribute a n of
        Inl e \<Rightarrow> (st, Some e)
      | Inr rates \<Rightarrow>
          (case capShares (maxVusers p) (length (filter (\<lambda>r. r > 0) rates)) of
             Inl e \<Rightarrow> (st, Some e)
           | Inr mv \<Rightarrow>
               (st\<lparr>newPhases := writeColumn idx
                  (\<lambda>i q. let q' = q\<lparr>arrivalRate := nthOpt rates i\<rparr>
                         in (case mv of None \<Rightarrow> q' | Some xs \<Rightarrow> q'\<lparr>maxVusers := Some (orZero (nthOpt xs i))\<rparr>)) (newPhases st)\<rparr>, None)))"
proof -
  have rows: "\<forall>row\<in>set (newPhases st). idx < length row"
    using sh idx by (simp add: shaped_def)
  have len: "length (newPhases st) = nat n" using sh by (simp add: shaped_def)
  have loop: "eachIndex (rateWrite rates mv idx) [0..<nat n] (newPhases st)
      = Inr (writeColumn idx (\<lambda>i q. let q' = q\<lparr>arrivalRate := nthOpt rates i\<rparr>
                        in (case mv of None \<Rightarrow> q' | Some xs \<Rightarrow> q'\<lparr>maxVusers := Some (orZero (nthOpt xs i))\<rparr>)) (newPhases st))"
    for rates mv
  proof -
    have eq: "rateWrite rates mv idx = (\<lambda>i. setProps i idx (\<lambda>q. let q' = q\<lparr>arrivalRate := nthOpt rates i\<rparr>
                        in (case mv of None \<Rightarrow> q' | Some xs \<Rightarrow> q'\<lparr>maxVusers := Some (orZero (nthOpt xs i))\<rparr>)))"
      by (rule ext)+ (simp add: rateWrite_def)
    show ?thesis
      unfolding eq by (rule eachIndex_setProps_upt [OF len rows])
  qed
  show ?thesis
    using d by (auto simp add: adjustPhase_def Let_def loop distribute_length split: sum.splits)
qed

lemma adjustPhase_Paused:
  assumes "dispatchPhase (srcPhases st ! idx) = Paused d"
  shows "adjustPhase n idx st = (st, None)"
  using assms by (simp add: adjustPhase_def)

lemma adjustPhase_Unknown:
  assumes "dispatchPhase (srcPhases st ! idx) = Unknown"
  shows "adjustPhase n idx st = (st\<lparr>console := console st @ [srcPhases st ! idx]\<rparr>, None)"
  using assms by (simp add: adjustPhase_def)

lemma length_writeColumn [simp]: "length (writeColumn idx W np) = length np"
  by (simp add: writeColumn_def)

lemma nth_writeColumn: "i < length np \<Longrightarrow> writeColumn idx W np ! i = (np ! i)[idx := W i (np ! i ! idx)]"
  by (simp add: writeColumn_def)

lemma writeColumn_id: "(\<And>i q. i < length np \<Longrightarrow> W i q = q) \<Longrightarrow> writeColumn idx W np = np"
  by (rule nth_equalityI) (simp_all add: nth_writeColumn)

lemma adjustPhase_Count:
  assumes d: "dispatchPhase (srcPhases st ! idx) = Count c"
    and sh: "shaped n st" and idx: "idx < length (srcPhases st)"
  shows "adjustPhase n idx st =
     (let p = srcPhases st ! idx in
      if truthy (maxVusers p) \<and> n \<le> 0 then (st, Some TypeError)
      else (st\<lparr>newPhases := writeColumn idx
                (\<lambda>i q. if i = 0 then (if truthy (maxVusers p) then q\<lparr>maxVusers := maxVusers p\<rparr> else q)
                       else pauseOf p) (newPhases st)\<rparr>, None))"
proof -
  define p where "p = srcPhases st ! idx"
  define np where "np = newPhases st"
  define Wa where "Wa = (\<lambda>(i::nat) (q::'a phase). if i = 0 \<and> truthy (maxVusers p) then q\<lparr>maxVusers := maxVusers p\<rparr> else q)"
  define Wb where "Wb = (\<lambda>(i::nat) (q::'a phase). if i = 0 then (if truthy (maxVusers p) then q\<lparr>maxVusers := maxVusers p\<rparr> else q)
                       else pauseOf p)"
  define npa where "npa = writeColumn idx Wa np"
  have rows: "\<forall>row\<in>set np. idx < length row"
    using sh idx by (simp add: shaped_def np_def)
  have len: "length np = nat n" using sh by (simp add: shaped_def np_def)
  have w0: "(if truthy (maxVusers p) then setProps 0 idx (\<lambda>q. q\<lparr>maxVusers := maxVusers p\<rparr>) np else Inr np)
      = (if truthy (maxVusers p) \<and> n \<le> 0 then Inl TypeError else Inr npa)"
  proof (cases "truthy (maxVusers p)")
    case False
    have "npa = np" unfolding npa_def by (rule writeColumn_id) (simp add: Wa_def False)
    then show ?thesis using False by simp
  next
    case True
    show ?thesis
    proof (cases "n \<le> 0")
      case True
      then show ?thesis using \<open>truthy (maxVusers p)\<close> len by (simp add: setProps_def)
    next
      case False
      then have pos: "0 < length np" using len by simp
      then have i0: "idx < length (np ! 0)" using rows by simp
      have "np[0 := (np ! 0)[idx := (np ! 0 ! idx)\<lparr>maxVusers := maxVusers p\<rparr>]] = npa"
      proof (rule nth_equalityI)
        show "length (np[0 := (np ! 0)[idx := (np ! 0 ! idx)\<lparr>maxVusers := maxVusers p\<rparr>]]) = length npa"
          by (simp add: npa_def)
      next
        fix i assume "i < length (np[0 := (np ! 0)[idx := (np ! 0 ! idx)\<lparr>maxVusers := maxVusers p\<rparr>]])"
        then have i: "i < length np" by simp
        show "np[0 := (np ! 0)[idx := (np ! 0 ! idx)\<lparr>maxVusers := maxVusers p\<rparr>]] ! i = npa ! i"
          using i True by (cases "i = 0") (simp_all add: npa_def nth_writeColumn Wa_def)
      qed
      then show ?thesis using True False pos i0 by (simp add: setProps_def)
    qed
  qed
  have loop: "eachIndex (\<lambda>i. setElem i idx (pauseOf p)) [1..<nat n] npa = Inr (writeColumn idx Wb np)"
  proof -
    have l0: "length npa = nat n" using len by (simp add: npa_def)
    have "eachIndex (\<lambda>i. setElem i idx (pauseOf p)) [1..<nat n] npa
        = Inr (map (\<lambda>i. if i \<in> set [1..<nat n] then (npa ! i)[idx := pauseOf p] else npa ! i) [0..<length npa])"
      using l0 by (intro eachIndex_setElem) auto
    also have "map (\<lambda>i. if i \<in> set [1..<nat n] then (npa ! i)[idx := pauseOf p] else npa ! i) [0..<length npa]
        = writeColumn idx Wb np"
    proof (rule nth_equalityI)
      show "length (map (\<lambda>i. if i \<in> set [1..<nat n] then (npa ! i)[idx := pauseOf p] else npa ! i) [0..<length npa])
            = length (writeColumn idx Wb np)"
        by (simp add: npa_def)
    next
      fix i assume "i < length (map (\<lambda>i. if i \<in> set [1..<nat n] then (npa ! i)[idx := pauseOf p] else npa ! i) [0..<length npa])"
      then have i: "i < length np" "i < nat n" using len by (simp_all add: npa_def)
      show "map (\<lambda>i. if i \<in> set [1..<nat n] then (npa ! i)[idx := pauseOf p] else npa ! i) [0..<length npa] ! i
            = writeColumn idx Wb np ! i"
        using i by (cases "i = 0") (simp_all add: npa_def nth_writeColumn Wa_def Wb_def)
    qed
    finally show ?thesis .
  qed
  have unf: "adjustPhase n idx st =
     (case (if truthy (maxVusers p) then setProps 0 idx (\<lambda>q. q\<lparr>maxVusers := maxVusers p\<rparr>) np else Inr np) of
        Inl e \<Rightarrow> (st, Some e)
      | Inr np0 \<Rightarrow>
         (case eachIndex (\<lambda>i. setElem i idx (pauseOf p)) [1..<nat n] np0 of
            Inl e \<Rightarrow> (st, Some e)
          | Inr np \<Rightarrow> (st\<lparr>newPhases := np\<rparr>, None)))"
    using d unfolding adjustPhase_def Let_def p_def np_def by simp
  have "adjustPhase n idx st =
     (if truthy (maxVusers p) \<and> n \<le> 0 then (st, Some TypeError)
      else (st\<lparr>newPhases := writeColumn idx Wb np\<rparr>, None))"
    unfolding unf w0 using loop by simp
  then show ?thesis
    by (simp add: Let_def p_def [symmetric] np_def [symmetric] Wb_def)
qed

subsection \<open>Shape and frame of the loop over the phases\<close>

lemma nth_nth_writeColumn:
  "i < length np \<Longrightarrow> writeColumn idx W np ! i ! q =
     (if q = idx \<and> idx < length (np ! i) then W i (np ! i ! idx) else np ! i ! q)"
  by (cases "q = idx") (simp_all add: nth_writeColumn nth_list_update list_update_beyond not_less)

lemma rows_writeColumn:
  "\<forall>row\<in>set np. length row = L \<Longrightarrow> \<forall>row\<in>set (writeColumn idx W np). length row = L"
  by (auto simp: writeColumn_def)

lemma adjustPhase_newPhases:
  assumes sh: "shaped n st" and idx: "idx < length (srcPhases st)"
  shows "\<exists>W. newPhases (fst (adjustPhase n idx st)) = writeColumn idx W (newPhases st)"
proof (cases "dispatchPhase (srcPhases st ! idx)")
  case (Ramp r)
  show ?thesis
    unfolding adjustPhase_Ramp [OF Ramp sh idx] Let_def
    by (auto split: sum.splits intro: exI [of _ "\<lambda>i q. q"] simp: writeColumn_id)
next
  case (Rate a)
  show ?thesis
    unfolding adjustPhase_Rate [OF Rate sh idx] Let_def
    by (auto split: sum.splits intro: exI [of _ "\<lambda>i q. q"] simp: writeColumn_id)
next
  case (Count c)
  show ?thesis
    unfolding adjustPhase_Count [OF Count sh idx] Let_def
    by (auto intro: exI [of _ "\<lambda>i q. q"] simp: writeColumn_id)
next
  case (Paused d)
  show ?thesis
    unfolding adjustPhase_Paused [OF Paused]
    by (auto intro: exI [of _ "\<lambda>i q. q"] simp: writeColumn_id)
next
  case Unknown
  show ?thesis
    unfolding adjustPhase_Unknown [OF Unknown]
    by (auto intro: exI [of _ "\<lambda>i q. q"] simp: writeColumn_id)
qed

text \<open>What a call does to the caller's phase.\<close>

lemma adjustPhase_srcPhases:
  "srcPhases (fst (adjustPhase n idx st)) =
     (srcPhases st)[idx := (let p = srcPhases st ! idx in
        case dispatchPhase p of Ramp r \<Rightarrow> p\<lparr>arrivalRate := Some (orZero (arrivalRate p))\<rparr> | _ \<Rightarrow> p)]"
proof (cases "dispatchPhase (srcPhases st ! idx)")
  case (Ramp r)
  then show ?thesis by (simp add: adjustPhase_def Let_def split: sum.splits)
next
  case (Rate a)
  then show ?thesis by (simp add: adjustPhase_def Let_def split: sum.splits)
next
  case (Count c)
  then show ?thesis by (simp add: adjustPhase_def Let_def split: sum.splits)
qed (simp_all add: adjustPhase_def)

lemma adjustPhase_console:
  "console (fst (adjustPhase n idx st)) =
     console st @ (if dispatchPhase (srcPhases st ! idx) = Unknown then [srcPhases st ! idx] else [])"
proof (cases "dispatchPhase (srcPhases st ! idx)")
  case (Ramp r)
  then show ?thesis by (simp add: adjustPhase_def Let_def split: sum.splits)
next
  case (Rate a)
  then show ?thesis by (simp add: adjustPhase_def Let_def split: sum.splits)
next
  case (Count c)
  then show ?thesis by (simp add: adjustPhase_def Let_def split: sum.splits)
qed (simp_all add: adjustPhase_def)

lemma length_adjustPhase_srcPhases:
  "length (srcPhases (fst (adjustPhase n idx st))) = length (srcPhases st)"
  unfolding adjustPhase_srcPhases by (rule length_list_update)

lemma adjustPhase_shaped:
  assumes sh: "shaped n st" and idx: "idx < length (srcPhases st)"
  shows "shaped n (fst (adjustPhase n idx st))"
proof -
  obtain W where W: "newPhases (fst (adjustPhase n idx st)) = writeColumn idx W (newPhases st)"
    using adjustPhase_newPhases [OF sh idx] by blast
  have r0: "\<forall>row\<in>set (newPhases st). length row = length (srcPhases st)"
    using sh unfolding shaped_def by blast
  have l0: "length (newPhases st) = nat n"
    using sh unfolding shaped_def by blast
  have "\<forall>row\<in>set (writeColumn idx W (newPhases st)). length row = length (srcPhases st)"
    using r0 by (rule rows_writeColumn)
  moreover have "length (writeColumn idx W (newPhases st)) = nat n"
    using l0 by (simp only: length_writeColumn)
  ultimately show ?thesis
    unfolding shaped_def W length_adjustPhase_srcPhases by blast
qed

lemma adjustPhase_other_src:
  assumes q: "q \<noteq> idx"
  shows "srcPhases (fst (adjustPhase n idx st)) ! q = srcPhases st ! q"
  unfolding adjustPhase_srcPhases using q by (simp only: nth_list_update_neq not_sym)

lemma adjustPhase_other_new:
  assumes sh: "shaped n st" and idx: "idx < length (srcPhases st)" and q: "q \<noteq> idx"
    and i: "i < nat n"
  shows "newPhases (fst (adjustPhase n idx st)) ! i ! q = newPhases st ! i ! q"
proof -
  obtain W where W: "newPhases (fst (adjustPhase n idx st)) = writeColumn idx W (newPhases st)"
    using adjustPhase_newPhases [OF sh idx] by blast
  have "i < length (newPhases st)" using sh i unfolding shaped_def by simp
  then show ?thesis
    unfolding W using q by (simp only: nth_nth_writeColumn if_False simp_thms)
qed

lemma adjustPhases_append:
  "adjustPhases n (xs @ ys) st =
     (case adjustPhases n xs st of
        (st', Some e) \<Rightarrow> (st', Some e)
      | (st', None) \<Rightarrow> adjustPhases n ys st')"
  by (induction xs arbitrary: st) (auto split: prod.splits option.splits)

lemma adjustPhases_frame:
  assumes "shaped n st" "\<forall>i\<in>set is. i < length (srcPhases st)"
  shows "shaped n (fst (adjustPhases n is st))
       \<and> length (srcPhases (fst (adjustPhases n is st))) = length (srcPhases st)
       \<and> (\<forall>q. q \<notin> set is \<longrightarrow> srcPhases (fst (adjustPhases n is st)) ! q = srcPhases st ! q
              \<and> (\<forall>i<nat n. newPhases (fst (adjustPhases n is st)) ! i ! q = newPhases st ! i ! q))"
  using assms
proof (induction "is" arbitrary: st)
  case Nil
  then show ?case by simp
next
  case (Cons j "is")
  obtain st1 err where step: "adjustPhase n j st = (st1, err)" by (cases "adjustPhase n j st")
  have j: "j < length (srcPhases st)" using Cons.prems by simp
  have sh1: "shaped n st1" using adjustPhase_shaped [OF Cons.prems(1) j] step by simp
  have len1: "length (srcPhases st1) = length (srcPhases st)"
    using step length_adjustPhase_srcPhases [of n j st] by simp
  have other: "\<And>q. q \<noteq> j \<Longrightarrow> srcPhases st1 ! q = srcPhases st ! q
                  \<and> (\<forall>i<nat n. newPhases st1 ! i ! q = newPhases st ! i ! q)"
    using adjustPhase_other_src [of _ j n st] adjustPhase_other_new [OF Cons.prems(1) j] step by simp
  show ?case
  proof (cases err)
    case (Some e)
    then show ?thesis using step sh1 len1 other by simp
  next
    case None
    have "\<forall>i\<in>set is. i < length (srcPhases st1)" using Cons.prems len1 by simp
    from Cons.IH [OF sh1 this] show ?thesis using step None len1 other by simp
  qed
qed

subsection \<open>One position of the phase list\<close>

lemma shaped_initialState: "shaped n (initialState ps n)"
  by (simp add: shaped_def initialState_def)

lemma upt_split3: "p < L \<Longrightarrow> [0..<L] = [0..<p] @ p # [Suc p..<L]"
  by (metis less_imp_le_nat upt_add_eq_append upt_conv_Cons le_add_diff_inverse add_0 zero_le)

lemma adjustPhases_at:
  assumes run: "adjustPhases n [0..<L] st0 = (stF, None)"
    and sh: "shaped n st0" and L: "length (srcPhases st0) = L" and p: "p < L"
  obtains st1 st2 where
    "shaped n st1" "length (srcPhases st1) = L"
    "srcPhases st1 ! p = srcPhases st0 ! p"
    "\<forall>i<nat n. newPhases st1 ! i ! p = newPhases st0 ! i ! p"
    "adjustPhase n p st1 = (st2, None)"
    "\<forall>i<nat n. newPhases stF ! i ! p = newPhases st2 ! i ! p"
    "srcPhases stF ! p = srcPhases st2 ! p"
    "shaped n stF" "length (srcPhases stF) = L"
proof -
  obtain st1 e1 where a: "adjustPhases n [0..<p] st0 = (st1, e1)" by (cases "adjustPhases n [0..<p] st0")
  obtain st2 e2 where b: "adjustPhase n p st1 = (st2, e2)" by (cases "adjustPhase n p st1")
  have split: "adjustPhases n [0..<L] st0 =
      (case adjustPhases n [0..<p] st0 of (st', Some e) \<Rightarrow> (st', Some e)
       | (st', None) \<Rightarrow> adjustPhases n (p # [Suc p..<L]) st')"
    unfolding upt_split3 [OF p] by (rule adjustPhases_append)
  have e1: "e1 = None" using run a split by (cases e1) simp_all
  then have c: "adjustPhases n (p # [Suc p..<L]) st1 = (stF, None)" using run a split by simp
  have e2: "e2 = None" using c b by (cases e2) simp_all
  then have d: "adjustPhases n [Suc p..<L] st2 = (stF, None)" using c b by simp
  have f1: "shaped n st1 \<and> length (srcPhases st1) = length (srcPhases st0)
       \<and> (\<forall>q. q \<notin> set [0..<p] \<longrightarrow> srcPhases st1 ! q = srcPhases st0 ! q
              \<and> (\<forall>i<nat n. newPhases st1 ! i ! q = newPhases st0 ! i ! q))"
    using adjustPhases_frame [of n st0 "[0..<p]"] sh L p a by simp
  have sh2: "shaped n st2" using adjustPhase_shaped [of n st1 p] f1 L p b by simp
  have l2: "length (srcPhases st2) = L" using length_adjustPhase_srcPhases [of n p st1] b f1 L by simp
  have f2: "shaped n stF \<and> length (srcPhases stF) = length (srcPhases st2)
       \<and> (\<forall>q. q \<notin> set [Suc p..<L] \<longrightarrow> srcPhases stF ! q = srcPhases st2 ! q
              \<and> (\<forall>i<nat n. newPhases stF ! i ! q = newPhases st2 ! i ! q))"
    using adjustPhases_frame [of n st2 "[Suc p..<L]"] sh2 l2 d by simp
  show thesis
  proof (rule that [of st1 st2])
    show "shaped n st1" using f1 by blast
    show "length (srcPhases st1) = L" using f1 L by simp
    show "srcPhases st1 ! p = srcPhases st0 ! p" using f1 by simp
    show "\<forall>i<nat n. newPhases st1 ! i ! p = newPhases st0 ! i ! p" using f1 by simp
    show "adjustPhase n p st1 = (st2, None)" using b e2 by simp
    show "\<forall>i<nat n. newPhases stF ! i ! p = newPhases st2 ! i ! p" using f2 by simp
    show "srcPhases stF ! p = srcPhases st2 ! p" using f2 by simp
    show "shaped n stF" using f2 by blast
    show "length (srcPhases stF) = L" using f2 l2 by simp
  qed
qed

lemma makeScripts_nonneg:
  assumes "0 \<le> n" "length np = nat n"
  shows "makeScripts s (map Some np) n =
     map (\<lambda>i. s\<lparr>config := (config s)\<lparr>phases := Some (np ! i)\<rparr>, before := None, after := None\<rparr>) [0..<nat n]"
  using assms by (simp add: makeScripts_def range0_def rowAt_def comp_def)

lemma newScripts_Some:
  assumes ps: "phases (config s) = Some ps" and n: "0 \<le> n" and res: "result (newScripts s n) = Inr ws"
  obtains stF where
    "adjustPhases n [0..<length ps] (initialState ps n) = (stF, None)"
    "ws = map (\<lambda>i. s\<lparr>config := (config s)\<lparr>phases := Some (newPhases stF ! i)\<rparr>, before := None, after := None\<rparr>) [0..<nat n]"
    "shaped n stF" "length (srcPhases stF) = length ps"
proof -
  obtain stF err where run: "adjustPhases n [0..<length ps] (initialState ps n) = (stF, err)"
    by (cases "adjustPhases n [0..<length ps] (initialState ps n)")
  have err: "err = None"
    using res ps run by (cases err) (simp_all add: newScripts_def initialState_def)
  have fr: "shaped n stF \<and> length (srcPhases stF) = length ps"
    using adjustPhases_frame [of n "initialState ps n" "[0..<length ps]"] run shaped_initialState [of n ps]
    by (simp add: initialState_def)
  then have len: "length (newPhases stF) = nat n" by (simp add: shaped_def)
  have "ws = makeScripts (s\<lparr>config := (config s)\<lparr>phases := Some (srcPhases stF)\<rparr>\<rparr>) (map Some (newPhases stF)) n"
    using res ps run err by (simp add: newScripts_def initialState_def Let_def)
  then have "ws = map (\<lambda>i. s\<lparr>config := (config s)\<lparr>phases := Some (newPhases stF ! i)\<rparr>, before := None, after := None\<rparr>) [0..<nat n]"
    by (simp add: makeScripts_nonneg [OF n len])
  then show thesis using that run err fr by blast
qed

text \<open>The phase of worker i at position p, in terms of the loop.\<close>

lemma newScripts_phaseAt:
  assumes ps: "phases (config s) = Some ps" and n: "0 \<le> n" and res: "result (newScripts s n) = Inr ws"
    and p: "p < length ps"
  obtains st1 st2 where
    "length ws = nat n"
    "shaped n st1" "length (srcPhases st1) = length ps"
    "srcPhases st1 ! p = ps ! p"
    "\<forall>i<nat n. newPhases st1 ! i ! p = ps ! p"
    "adjustPhase n p st1 = (st2, None)"
    "\<forall>i<nat n. phaseAt (ws ! i) p = Some (newPhases st2 ! i ! p)"
proof (rule newScripts_Some [OF ps n res])
  fix stF
  assume F: "adjustPhases n [0..<length ps] (initialState ps n) = (stF, None)"
    "ws = map (\<lambda>i. s\<lparr>config := (config s)\<lparr>phases := Some (newPhases stF ! i)\<rparr>, before := None, after := None\<rparr>) [0..<nat n]"
    "shaped n stF" "length (srcPhases stF) = length ps"
  have L: "length (srcPhases (initialState ps n)) = length ps" by (simp add: initialState_def)
  show thesis
  proof (rule adjustPhases_at [OF F(1) shaped_initialState L p])
    fix st1 st2
    assume S: "shaped n st1" "length (srcPhases st1) = length ps"
      "srcPhases st1 ! p = srcPhases (initialState ps n) ! p"
      "\<forall>i<nat n. newPhases st1 ! i ! p = newPhases (initialState ps n) ! i ! p"
      "adjustPhase n p st1 = (st2, None)"
      "\<forall>i<nat n. newPhases stF ! i ! p = newPhases st2 ! i ! p"
    have rows: "\<forall>i<nat n. length (newPhases stF ! i) = length ps"
      using F(3,4) by (simp add: shaped_def)
    have at: "\<forall>i<nat n. phaseAt (ws ! i) p = Some (newPhases st2 ! i ! p)"
    proof (intro allI impI)
      fix i assume i: "i < nat n"
      have "ws ! i = s\<lparr>config := (config s)\<lparr>phases := Some (newPhases stF ! i)\<rparr>, before := None, after := None\<rparr>"
        unfolding F(2) using i by simp
      then have "phaseAt (ws ! i) p = nthOpt (newPhases stF ! i) p"
        by (simp add: phaseAt_def)
      also have "\<dots> = Some (newPhases stF ! i ! p)"
        using rows i p by (simp add: nthOpt_def)
      finally show "phaseAt (ws ! i) p = Some (newPhases st2 ! i ! p)"
        using S(6) i by simp
    qed
    have lw: "length ws = nat n" unfolding F(2) by simp
    have s1: "srcPhases st1 ! p = ps ! p" using S(3) by (simp add: initialState_def)
    have c1: "\<forall>i<nat n. newPhases st1 ! i ! p = ps ! p" using S(4) by (simp add: initialState_def)
    show thesis
      by (rule that [OF lw S(1) S(2) s1 c1 S(5) at])
  qed
qed

subsection \<open>Fixed-count and ramping phases\<close>

lemma column_entry:
  assumes "shaped n st" "p < length (srcPhases st)" "i < nat n"
  shows "writeColumn p W (newPhases st) ! i ! p = W i (newPhases st ! i ! p)"
proof -
  have "i < length (newPhases st)" "p < length (newPhases st ! i)"
    using assms by (simp_all add: shaped_def)
  then show ?thesis by (simp add: nth_nth_writeColumn)
qed







subsection \<open>The caller's phases and the console\<close>

lemma adjustPhase_srcPhases_normalised:
  "srcPhases (fst (adjustPhase n idx st)) = (srcPhases st)[idx := normalised (srcPhases st ! idx)]"
proof -
  have "(let p = srcPhases st ! idx in
        case dispatchPhase p of Ramp r \<Rightarrow> p\<lparr>arrivalRate := Some (orZero (arrivalRate p))\<rparr> | _ \<Rightarrow> p)
      = normalised (srcPhases st ! idx)"
    by (auto simp: normalised_def Let_def dispatchPhase_def truthy_def split: dispatch.splits option.splits if_splits)
  then show ?thesis unfolding adjustPhase_srcPhases by simp
qed

lemma dispatchPhase_normalised [simp]: "dispatchPhase (normalised ph) = dispatchPhase ph"
  by (simp add: normalised_def dispatchPhase_def truthy_def truthyNum_def orZero_def split: option.splits)

lemma normalised_idem [simp]: "normalised (normalised ph) = normalised ph"
  by (simp add: normalised_def orZero_def truthyNum_def truthy_def split: option.splits)

text \<open>The caller's phases after the loop: the calls made have normalised their phase.\<close>

lemma adjustPhases_srcPhases:
  assumes "distinct is" "\<forall>i\<in>set is. i < length (srcPhases st)"
  shows "length (srcPhases (fst (adjustPhases n is st))) = length (srcPhases st)
       \<and> (\<forall>q<length (srcPhases st).
             srcPhases (fst (adjustPhases n is st)) ! q = srcPhases st ! q
           \<or> srcPhases (fst (adjustPhases n is st)) ! q = normalised (srcPhases st ! q))
       \<and> (snd (adjustPhases n is st) = None \<longrightarrow>
             (\<forall>q<length (srcPhases st).
                srcPhases (fst (adjustPhases n is st)) ! q =
                  (if q \<in> set is then normalised (srcPhases st ! q) else srcPhases st ! q)))"
  using assms
proof (induction "is" arbitrary: st)
  case Nil
  then show ?case by simp
next
  case (Cons j "is")
  obtain st1 err where step: "adjustPhase n j st = (st1, err)" by (cases "adjustPhase n j st")
  have s1: "srcPhases st1 = (srcPhases st)[j := normalised (srcPhases st ! j)]"
    using adjustPhase_srcPhases_normalised [of n j st] step by simp
  have j: "j < length (srcPhases st)" "j \<notin> set is" using Cons.prems by auto
  show ?case
  proof (cases err)
    case (Some e)
    then show ?thesis using step s1 j by (auto simp: nth_list_update)
  next
    case None
    have pre: "distinct is" "\<forall>i\<in>set is. i < length (srcPhases st1)"
      using Cons.prems s1 by auto
    have run: "adjustPhases n (j # is) st = adjustPhases n is st1" using step None by simp
    note IH = Cons.IH [OF pre]
    have l: "length (srcPhases (fst (adjustPhases n (j # is) st))) = length (srcPhases st)"
      using IH s1 run by simp
    have a: "srcPhases (fst (adjustPhases n (j # is) st)) ! q = srcPhases st ! q
           \<or> srcPhases (fst (adjustPhases n (j # is) st)) ! q = normalised (srcPhases st ! q)"
      if "q < length (srcPhases st)" for q
    proof -
      have "srcPhases (fst (adjustPhases n is st1)) ! q = srcPhases st1 ! q
           \<or> srcPhases (fst (adjustPhases n is st1)) ! q = normalised (srcPhases st1 ! q)"
        using IH that s1 by simp
      then show ?thesis unfolding run s1 using that by (cases "q = j") auto
    qed
    have b: "srcPhases (fst (adjustPhases n (j # is) st)) ! q =
                  (if q \<in> set (j # is) then normalised (srcPhases st ! q) else srcPhases st ! q)"
      if "q < length (srcPhases st)" "snd (adjustPhases n (j # is) st) = None" for q
    proof -
      have "srcPhases (fst (adjustPhases n is st1)) ! q =
                  (if q \<in> set is then normalised (srcPhases st1 ! q) else srcPhases st1 ! q)"
        using IH that s1 run by simp
      then show ?thesis unfolding run s1 using that j by (cases "q = j") auto
    qed
    show ?thesis using l a b by blast
  qed
qed

lemma adjustPhases_console:
  assumes "distinct is" "\<forall>i\<in>set is. i < length (srcPhases st)"
    and "snd (adjustPhases n is st) = None"
  shows "console (fst (adjustPhases n is st)) =
           console st @ filter (\<lambda>ph. dispatchPhase ph = Unknown) (map ((!) (srcPhases st)) is)"
  using assms
proof (induction "is" arbitrary: st)
  case Nil
  then show ?case by simp
next
  case (Cons j "is")
  obtain st1 err where step: "adjustPhase n j st = (st1, err)" by (cases "adjustPhase n j st")
  have err: "err = None" using Cons.prems(3) step by (cases err) simp_all
  have s1: "srcPhases st1 = (srcPhases st)[j := normalised (srcPhases st ! j)]"
    using adjustPhase_srcPhases_normalised [of n j st] step by simp
  have c1: "console st1 = console st @ (if dispatchPhase (srcPhases st ! j) = Unknown then [srcPhases st ! j] else [])"
    using adjustPhase_console [of n j st] step by simp
  have j: "j < length (srcPhases st)" "j \<notin> set is" using Cons.prems by auto
  have run: "adjustPhases n (j # is) st = adjustPhases n is st1" using step err by simp
  have pre: "distinct is" "\<forall>i\<in>set is. i < length (srcPhases st1)" "snd (adjustPhases n is st1) = None"
    using Cons.prems s1 run by auto
  have same: "map ((!) (srcPhases st1)) is = map ((!) (srcPhases st)) is"
    using j by (auto simp: s1 nth_list_update)
  show ?case
    unfolding run Cons.IH [OF pre] c1 same by simp
qed

subsection \<open>No worker\<close>

lemma distribute_no_workers:
  assumes "n \<le> 0" "m \<noteq> 0"
  shows "distribute m n = Inl AssertionError"
  using assms by (simp add: distribute_def sum_js_def)

lemma capShares_no_workers:
  "capShares mvu 0 = (if truthy mvu then Inl AssertionError else Inr None)"
  by (auto simp: capShares_def truthy_def truthyNum_def distribute_no_workers split: option.splits)

lemma dispatchPhase_Rate_nonzero: "dispatchPhase ph = Rate a \<Longrightarrow> a \<noteq> 0"
  by (auto simp: dispatchPhase_def truthyNum_def split: option.splits if_splits)

lemma writeColumn_Nil [simp]: "writeColumn idx W [] = []"
  by (simp add: writeColumn_def)

lemma adjustPhase_no_workers:
  assumes n: "n \<le> 0" and sh: "shaped n st" and idx: "idx < length (srcPhases st)"
  shows "(snd (adjustPhase n idx st) = None) = (\<not> needsWorker (srcPhases st ! idx))"
proof (cases "dispatchPhase (srcPhases st ! idx)")
  case (Ramp r)
  have de: "distributeEven x n = []" for x using n by (simp add: distributeEven_def)
  show ?thesis
    unfolding adjustPhase_Ramp [OF Ramp sh idx] Let_def de
    using Ramp by (simp add: capShares_no_workers needsWorker_def)
next
  case (Rate a)
  have "distribute a n = Inl AssertionError"
    using distribute_no_workers [OF n dispatchPhase_Rate_nonzero [OF Rate]] .
  then show ?thesis
    unfolding adjustPhase_Rate [OF Rate sh idx] Let_def
    using Rate by (simp add: needsWorker_def)
next
  case (Count c)
  show ?thesis
    unfolding adjustPhase_Count [OF Count sh idx] Let_def
    using Count n by (simp add: needsWorker_def)
next
  case (Paused d)
  then show ?thesis by (simp add: adjustPhase_Paused needsWorker_def)
next
  case Unknown
  then show ?thesis by (simp add: adjustPhase_Unknown needsWorker_def)
qed

lemma adjustPhases_no_workers:
  assumes "n \<le> 0" "shaped n st" "distinct is" "\<forall>i\<in>set is. i < length (srcPhases st)"
  shows "(snd (adjustPhases n is st) = None) = (\<forall>i\<in>set is. \<not> needsWorker (srcPhases st ! i))"
  using assms
proof (induction "is" arbitrary: st)
  case Nil
  then show ?case by simp
next
  case (Cons j "is")
  obtain st1 err where step: "adjustPhase n j st = (st1, err)" by (cases "adjustPhase n j st")
  have j: "j < length (srcPhases st)" "j \<notin> set is" using Cons.prems by auto
  have e: "(err = None) = (\<not> needsWorker (srcPhases st ! j))"
    using adjustPhase_no_workers [OF Cons.prems(1,2) j(1)] step by simp
  show ?case
  proof (cases err)
    case (Some x)
    then show ?thesis using step e by simp
  next
    case None
    have sh1: "shaped n st1" using adjustPhase_shaped [OF Cons.prems(2) j(1)] step by simp
    have l1: "length (srcPhases st1) = length (srcPhases st)"
      using length_adjustPhase_srcPhases [of n j st] step by simp
    have same: "\<forall>i\<in>set is. srcPhases st1 ! i = srcPhases st ! i"
    proof
      fix i assume "i \<in> set is"
      then have "i \<noteq> j" using j by auto
      then show "srcPhases st1 ! i = srcPhases st ! i"
        using adjustPhase_other_src [of i j n st] step by simp
    qed
    have "(snd (adjustPhases n is st1) = None) = (\<forall>i\<in>set is. \<not> needsWorker (srcPhases st1 ! i))"
      using Cons.prems l1 by (intro Cons.IH [OF Cons.prems(1) sh1]) auto
    then show ?thesis using step None e same by simp
  qed
qed

lemma makeScripts_no_workers:
  assumes "n \<le> 0" "w \<in> set (makeScripts s [] n)"
  shows "phases (config w) = None"
  using assms by (auto simp: makeScripts_def rowAt_def)

lemma survivors_no_phases:
  assumes "\<forall>w\<in>set ws. phases (config w) = None"
  shows "survivors isIdle ws = []"
  using assms by (auto simp: survivors_def allIdle_def filter_empty_conv)

lemma divideWork_no_workers:
  assumes n: "n \<le> 0" and ps: "phases (config s) = Some ps"
  shows "result (divideWorkWith isIdle s n) = Inr [] \<longleftrightarrow> (\<forall>ph\<in>set ps. \<not> needsWorker ph)"
    and "result (divideWorkWith isIdle s n) \<noteq> Inr [] \<longrightarrow> (\<exists>e. result (divideWorkWith isIdle s n) = Inl e)"
proof -
  obtain stF err where run: "adjustPhases n [0..<length ps] (initialState ps n) = (stF, err)"
    by (cases "adjustPhases n [0..<length ps] (initialState ps n)")
  have e: "(err = None) = (\<forall>i\<in>set [0..<length ps]. \<not> needsWorker (ps ! i))"
    using adjustPhases_no_workers [OF n shaped_initialState, of "[0..<length ps]" ps] run
    by (simp add: initialState_def)
  have e': "(err = None) = (\<forall>ph\<in>set ps. \<not> needsWorker ph)"
    unfolding e by (metis atLeastLessThan_iff in_set_conv_nth set_upt zero_le nth_mem)
  have shF: "shaped n stF"
    using adjustPhases_frame [of n "initialState ps n" "[0..<length ps]"] run shaped_initialState [of n ps]
    by (simp add: initialState_def)
  then have np: "newPhases stF = []" using n by (simp add: shaped_def)
  have res: "result (divideWorkWith isIdle s n) =
      (case err of Some x \<Rightarrow> Inl x
       | None \<Rightarrow> (let sv = survivors isIdle (makeScripts (s\<lparr>config := (config s)\<lparr>phases := Some (srcPhases stF)\<rparr>\<rparr>) [] n)
                  in annotate (of_nat (length sv)) 1 sv))"
    using ps run np by (simp add: divideWorkWith_def newScripts_def initialState_def Let_def split: option.splits)
  have sv: "survivors isIdle (makeScripts s' [] n) = []" for s' :: "'a script"
    by (rule survivors_no_phases) (use makeScripts_no_workers [OF n] in blast)
  have res': "result (divideWorkWith isIdle s n) = (case err of Some x \<Rightarrow> Inl x | None \<Rightarrow> Inr [])"
    unfolding res sv by (simp split: option.splits)
  show "result (divideWorkWith isIdle s n) = Inr [] \<longleftrightarrow> (\<forall>ph\<in>set ps. \<not> needsWorker ph)"
    unfolding res' e' [symmetric] by (simp split: option.splits)
  show "result (divideWorkWith isIdle s n) \<noteq> Inr [] \<longrightarrow> (\<exists>e. result (divideWorkWith isIdle s n) = Inl e)"
    unfolding res' by (simp split: option.splits)
qed

subsection \<open>Positions are independent\<close>

lemma adjustPhase_written:
  "\<exists>W. \<forall>st idx s2. shaped n st \<and> idx < length (srcPhases st) \<and> srcPhases st ! idx = (ph :: 'o phase)
            \<and> adjustPhase n idx st = (s2, None)
          \<longrightarrow> newPhases s2 = writeColumn idx W (newPhases st)"
proof (cases "dispatchPhase ph")
  case (Ramp r)
  define a where "a = orZero (arrivalRate ph)"
  define aw where "aw = max (length (filter (\<lambda>x. x > 0) (distributeEven a n))) (length (filter (\<lambda>x. x > 0) (distributeEven r n)))"
  define W where "W = (\<lambda>(i::nat) (q::'o phase).
      let q' = q\<lparr>arrivalRate := nthOpt (distributeEven a n) i, rampTo := nthOpt (distributeEven r n) i\<rparr>
      in (case capShares (maxVusers ph) aw of Inl e \<Rightarrow> q
          | Inr mv \<Rightarrow> (case mv of None \<Rightarrow> q' | Some xs \<Rightarrow> q'\<lparr>maxVusers := nthOpt xs i\<rparr>)))"
  have "newPhases s2 = writeColumn idx W (newPhases st)"
    if sh: "shaped n st" and idx: "idx < length (srcPhases st)" and src: "srcPhases st ! idx = ph"
      and step: "adjustPhase n idx st = (s2, None)" for st idx s2
  proof -
    have d: "dispatchPhase (srcPhases st ! idx) = Ramp r" using Ramp src by simp
    show ?thesis
      using step unfolding adjustPhase_Ramp [OF d sh idx] Let_def src a_def [symmetric] aw_def [symmetric]
      by (cases "capShares (maxVusers ph) aw") (auto simp: W_def Let_def)
  qed
  then show ?thesis by blast
next
  case (Rate a)
  define W where "W = (\<lambda>(i::nat) (q::'o phase).
      case distribute a n of Inl e \<Rightarrow> q
      | Inr rates \<Rightarrow>
         (let q' = q\<lparr>arrivalRate := nthOpt rates i\<rparr>
          in (case capShares (maxVusers ph) (length (filter (\<lambda>r. r > 0) rates)) of Inl e \<Rightarrow> q
              | Inr mv \<Rightarrow> (case mv of None \<Rightarrow> q' | Some xs \<Rightarrow> q'\<lparr>maxVusers := Some (orZero (nthOpt xs i))\<rparr>))))"
  have "newPhases s2 = writeColumn idx W (newPhases st)"
    if sh: "shaped n st" and idx: "idx < length (srcPhases st)" and src: "srcPhases st ! idx = ph"
      and step: "adjustPhase n idx st = (s2, None)" for st idx s2
  proof -
    have d: "dispatchPhase (srcPhases st ! idx) = Rate a" using Rate src by simp
    show ?thesis
    proof (cases "distribute a n")
      case (Inl e)
      then show ?thesis using step unfolding adjustPhase_Rate [OF d sh idx] Let_def src by simp
    next
      case (Inr rates)
      then show ?thesis
        using step unfolding adjustPhase_Rate [OF d sh idx] Let_def src
        by (cases "capShares (maxVusers ph) (length (filter (\<lambda>r. r > 0) rates))") (auto simp: W_def Let_def)
    qed
  qed
  then show ?thesis by blast
next
  case (Count c)
  define W where "W = (\<lambda>(i::nat) (q::'o phase).
      if i = 0 then (if truthy (maxVusers ph) then q\<lparr>maxVusers := maxVusers ph\<rparr> else q) else pauseOf ph)"
  have "newPhases s2 = writeColumn idx W (newPhases st)"
    if sh: "shaped n st" and idx: "idx < length (srcPhases st)" and src: "srcPhases st ! idx = ph"
      and step: "adjustPhase n idx st = (s2, None)" for st idx s2
  proof -
    have d: "dispatchPhase (srcPhases st ! idx) = Count c" using Count src by simp
    show ?thesis
      using step unfolding adjustPhase_Count [OF d sh idx] Let_def src
      by (auto simp: W_def split: if_splits)
  qed
  then show ?thesis by blast
next
  case (Paused d)
  have "newPhases s2 = writeColumn idx (\<lambda>i q. q) (newPhases st)"
    if src: "srcPhases st ! idx = ph" and step: "adjustPhase n idx st = (s2, None)" for st idx s2
    using step Paused src by (auto simp: adjustPhase_Paused writeColumn_id)
  then show ?thesis by blast
next
  case Unknown
  have "newPhases s2 = writeColumn idx (\<lambda>i q. q) (newPhases st)"
    if src: "srcPhases st ! idx = ph" and step: "adjustPhase n idx st = (s2, None)" for st idx s2
    using step Unknown src by (auto simp: adjustPhase_Unknown writeColumn_id)
  then show ?thesis by blast
qed

lemma phaseAt_determined:
  assumes ps: "phases (config s) = Some ps" and qs: "phases (config t) = Some qs"
    and p: "p < length ps" and p': "p' < length qs" and eq: "ps ! p = qs ! p'"
    and n: "0 \<le> n"
    and rs: "result (newScripts s n) = Inr ws" and rt: "result (newScripts t n) = Inr vs"
    and i: "i < nat n"
  shows "phaseAt (ws ! i) p = phaseAt (vs ! i) p'"
proof (rule newScripts_phaseAt [OF ps n rs p])
  fix st1 st2
  assume A: "shaped n st1" "length (srcPhases st1) = length ps" "srcPhases st1 ! p = ps ! p"
    "\<forall>i<nat n. newPhases st1 ! i ! p = ps ! p" "adjustPhase n p st1 = (st2, None)"
    "\<forall>i<nat n. phaseAt (ws ! i) p = Some (newPhases st2 ! i ! p)"
  show ?thesis
  proof (rule newScripts_phaseAt [OF qs n rt p'])
    fix su1 su2
    assume B: "shaped n su1" "length (srcPhases su1) = length qs" "srcPhases su1 ! p' = qs ! p'"
      "\<forall>i<nat n. newPhases su1 ! i ! p' = qs ! p'" "adjustPhase n p' su1 = (su2, None)"
      "\<forall>i<nat n. phaseAt (vs ! i) p' = Some (newPhases su2 ! i ! p')"
    obtain W where W: "\<And>st idx s2. shaped n st \<Longrightarrow> idx < length (srcPhases st) \<Longrightarrow> srcPhases st ! idx = ps ! p
            \<Longrightarrow> adjustPhase n idx st = (s2, None) \<Longrightarrow> newPhases s2 = writeColumn idx W (newPhases st)"
      using adjustPhase_written [of n "ps ! p"] by blast
    have p1: "p < length (srcPhases st1)" using A(2) p by simp
    have p2: "p' < length (srcPhases su1)" using B(2) p' by simp
    have "newPhases st2 ! i ! p = W i (ps ! p)"
      unfolding W [OF A(1) p1 A(3) A(5)] column_entry [OF A(1) p1 i] using A(4) i by simp
    moreover have "newPhases su2 ! i ! p' = W i (ps ! p)"
      unfolding W [OF B(1) p2 B(3) [folded eq] B(5)] column_entry [OF B(1) p2 i] using B(4) i eq by simp
    ultimately show ?thesis using A(6) B(6) i by simp
  qed
qed

lemma newScripts_phase_count:
  assumes ps: "phases (config s) = Some ps" and n: "0 \<le> n" and res: "result (newScripts s n) = Inr ws"
  shows "length ws = nat n"
    and "w \<in> set ws \<Longrightarrow> \<exists>ps'. phases (config w) = Some ps' \<and> length ps' = length ps"
proof -
  obtain stF where F:
    "ws = map (\<lambda>i. s\<lparr>config := (config s)\<lparr>phases := Some (newPhases stF ! i)\<rparr>, before := None, after := None\<rparr>) [0..<nat n]"
    "shaped n stF" "length (srcPhases stF) = length ps"
    using newScripts_Some [OF ps n res] by blast
  show "length ws = nat n" unfolding F(1) by simp
  show "\<exists>ps'. phases (config w) = Some ps' \<and> length ps' = length ps" if wmem: "w \<in> set ws"
  proof -
    obtain i where i: "i < nat n" "w = s\<lparr>config := (config s)\<lparr>phases := Some (newPhases stF ! i)\<rparr>, before := None, after := None\<rparr>"
      using wmem unfolding F(1) by auto
    have "length (newPhases stF ! i) = length ps" using F(2,3) i(1) by (simp add: shaped_def)
    then show ?thesis using i(2) by simp
  qed
qed

subsection \<open>Filtering and annotation\<close>

lemma annotate_ok:
  assumes "\<forall>w\<in>set sv. phases (config w) \<noteq> None"
  shows "\<exists>out. annotate len k sv = Inr out \<and> length out = length sv \<and>
           (\<forall>j<length sv. \<exists>psj. phases (config (sv ! j)) = Some psj \<and>
              out ! j = (sv ! j)\<lparr>config := (config (sv ! j))\<lparr>phases :=
                          Some (map (annotatePhase len (k + of_nat j)) psj)\<rparr>\<rparr>)"
  using assms
proof (induction sv arbitrary: k)
  case Nil
  then show ?case by simp
next
  case (Cons r rs)
  obtain psr where psr: "phases (config r) = Some psr" using Cons.prems by auto
  obtain out where out: "annotate len (k + 1) rs = Inr out" "length out = length rs"
    "\<forall>j<length rs. \<exists>psj. phases (config (rs ! j)) = Some psj \<and>
              out ! j = (rs ! j)\<lparr>config := (config (rs ! j))\<lparr>phases :=
                          Some (map (annotatePhase len (k + 1 + of_nat j)) psj)\<rparr>\<rparr>"
    using Cons.IH [of "k + 1"] Cons.prems by auto
  let ?r' = "r\<lparr>config := (config r)\<lparr>phases := Some (map (annotatePhase len k) psr)\<rparr>\<rparr>"
  have a: "annotate len k (r # rs) = Inr (?r' # out)" using psr out(1) by simp
  have b: "\<exists>psj. phases (config ((r # rs) ! j)) = Some psj \<and>
              (?r' # out) ! j = ((r # rs) ! j)\<lparr>config := (config ((r # rs) ! j))\<lparr>phases :=
                          Some (map (annotatePhase len (k + of_nat j)) psj)\<rparr>\<rparr>"
    if "j < length (r # rs)" for j
  proof (cases j)
    case 0
    then show ?thesis using psr by simp
  next
    case (Suc j')
    then have j': "j' < length rs" using that by simp
    have k: "k + 1 + of_nat j' = k + of_nat j" using Suc by simp
    obtain psj where "phases (config (rs ! j')) = Some psj"
      "out ! j' = (rs ! j')\<lparr>config := (config (rs ! j'))\<lparr>phases :=
                          Some (map (annotatePhase len (k + 1 + of_nat j')) psj)\<rparr>\<rparr>"
      using out(3) j' by blast
    then show ?thesis unfolding k using Suc by simp
  qed
  show ?case using a b out(2) by simp
qed

lemma survivors_have_phases:
  "w \<in> set (survivors isIdle ws) \<Longrightarrow> phases (config w) \<noteq> None"
  by (auto simp: survivors_def allIdle_def split: option.splits)

lemma divideWorkWith_result:
  "result (divideWorkWith isIdle s n) =
     (case result (newScripts s n) of Inl e \<Rightarrow> Inl e
      | Inr ws \<Rightarrow> annotate (of_nat (length (survivors isIdle ws))) 1 (survivors isIdle ws))"
  by (simp add: divideWorkWith_def Let_def split: sum.splits)

lemma divideWorkWith_input: "input (divideWorkWith isIdle s n) = input (newScripts s n)"
  by (simp add: divideWorkWith_def Let_def)

lemma divideWorkWith_printed: "printed (divideWorkWith isIdle s n) = printed (newScripts s n)"
  by (simp add: divideWorkWith_def Let_def)

lemma filter_annotate:
  assumes res: "result (newScripts s n) = Inr ws"
  shows "\<exists>out. result (divideWorkWith isIdle s n) = Inr out
           \<and> length out = length (survivors isIdle ws)
           \<and> (\<forall>k<length out. \<exists>psk. phases (config (survivors isIdle ws ! k)) = Some psk
                \<and> out ! k = (survivors isIdle ws ! k)\<lparr>config := (config (survivors isIdle ws ! k))\<lparr>phases :=
                     Some (map (\<lambda>ph. ph\<lparr>totalWorkers := Some (of_nat (length out)), worker := Some (of_nat (k + 1))\<rparr>) psk)\<rparr>\<rparr>)"
proof -
  let ?sv = "survivors isIdle ws"
  have "\<forall>w\<in>set ?sv. phases (config w) \<noteq> None" using survivors_have_phases by blast
  from annotate_ok [OF this, of "of_nat (length ?sv)" 1]
  obtain out where out: "annotate (of_nat (length ?sv)) 1 ?sv = Inr out" "length out = length ?sv"
    "\<forall>j<length ?sv. \<exists>psj. phases (config (?sv ! j)) = Some psj \<and>
              out ! j = (?sv ! j)\<lparr>config := (config (?sv ! j))\<lparr>phases :=
                          Some (map (annotatePhase (of_nat (length ?sv)) (1 + of_nat j)) psj)\<rparr>\<rparr>"
    by blast
  have ap: "annotatePhase (of_nat (length ?sv)) (1 + of_nat j) =
      (\<lambda>ph. ph\<lparr>totalWorkers := Some (of_nat (length out)), worker := Some (of_nat (j + 1))\<rparr>)" for j
    by (rule ext) (simp add: annotatePhase_def out(2) add.commute)
  have "result (divideWorkWith isIdle s n) = Inr out"
    using res out(1) by (simp add: divideWorkWith_result)
  then show ?thesis using out(2,3) unfolding ap by auto
qed

lemma annotate_members:
  assumes "annotate len k sv = Inr out" "w \<in> set out"
  shows "\<exists>r\<in>set sv. \<exists>psr k'. phases (config r) = Some psr
            \<and> w = r\<lparr>config := (config r)\<lparr>phases := Some (map (annotatePhase len k') psr)\<rparr>\<rparr>"
  using assms
proof (induction sv arbitrary: k out)
  case Nil
  then show ?case by simp
next
  case (Cons r rs)
  obtain psr where psr: "phases (config r) = Some psr"
    using Cons.prems(1) by (cases "phases (config r)") simp_all
  obtain out' where out': "annotate len (k + 1) rs = Inr out'"
    using Cons.prems(1) psr by (cases "annotate len (k + 1) rs") simp_all
  have out: "out = r\<lparr>config := (config r)\<lparr>phases := Some (map (annotatePhase len k) psr)\<rparr>\<rparr> # out'"
    using Cons.prems(1) psr out' by simp
  show ?case
  proof (cases "w \<in> set out'")
    case True
    from Cons.IH [OF out' True] show ?thesis by auto
  next
    case False
    then have "w = r\<lparr>config := (config r)\<lparr>phases := Some (map (annotatePhase len k) psr)\<rparr>\<rparr>"
      using Cons.prems(2) out by simp
    then show ?thesis using psr by auto
  qed
qed

lemma makeScripts_members:
  assumes "w \<in> set (makeScripts s' rows n)" "s' = s\<lparr>config := (config s)\<lparr>phases := Y\<rparr>\<rparr>"
  shows "w = s\<lparr>config := (config s)\<lparr>phases := phases (config w)\<rparr>, before := None, after := None\<rparr>"
  using assms by (auto simp: makeScripts_def)

lemma newScripts_members:
  assumes "result (newScripts s n) = Inr ws" "w \<in> set ws"
  shows "w = s\<lparr>config := (config s)\<lparr>phases := phases (config w)\<rparr>, before := None, after := None\<rparr>"
proof (cases "phases (config s)")
  case None
  then have "ws = makeScripts s (replicate (nat n) None) n"
    using assms(1) by (simp add: newScripts_def)
  moreover have "s = s\<lparr>config := (config s)\<lparr>phases := None\<rparr>\<rparr>" using None by simp
  ultimately show ?thesis using makeScripts_members [where w = w and s' = s and s = s and Y = None] assms(2) by simp
next
  case (Some ps)
  obtain st err where run: "adjustPhases n [0..<length ps]
      \<lparr>srcPhases = ps, newPhases = replicate (nat n) ps, console = []\<rparr> = (st, err)"
    by (cases "adjustPhases n [0..<length ps] \<lparr>srcPhases = ps, newPhases = replicate (nat n) ps, console = []\<rparr>")
  have "ws = makeScripts (s\<lparr>config := (config s)\<lparr>phases := Some (srcPhases st)\<rparr>\<rparr>) (map Some (newPhases st)) n"
    using assms(1) Some run by (cases err) (simp_all add: newScripts_def Let_def)
  then show ?thesis using makeScripts_members [where w = w and s = s and Y = "Some (srcPhases st)"] assms(2) by simp
qed

lemma divideWork_members:
  assumes res: "result (divideWorkWith isIdle s n) = Inr out" and w: "w \<in> set out"
  shows "w = s\<lparr>config := (config s)\<lparr>phases := phases (config w)\<rparr>, before := None, after := None\<rparr>"
    and "\<exists>ws r psr len k. result (newScripts s n) = Inr ws \<and> r \<in> set ws \<and> phases (config r) = Some psr
            \<and> phases (config w) = Some (map (annotatePhase len k) psr)"
proof -
  obtain ws where ws: "result (newScripts s n) = Inr ws"
    using res by (cases "result (newScripts s n)") (simp_all add: divideWorkWith_result)
  have an: "annotate (of_nat (length (survivors isIdle ws))) 1 (survivors isIdle ws) = Inr out"
    using res ws by (simp add: divideWorkWith_result)
  obtain r psr k' where r: "r \<in> set (survivors isIdle ws)" "phases (config r) = Some psr"
    "w = r\<lparr>config := (config r)\<lparr>phases := Some (map (annotatePhase (of_nat (length (survivors isIdle ws))) k') psr)\<rparr>\<rparr>"
    using annotate_members [OF an w] by blast
  have rws: "r \<in> set ws" using r(1) by (simp add: survivors_def)
  have req: "r = s\<lparr>config := (config s)\<lparr>phases := phases (config r)\<rparr>, before := None, after := None\<rparr>"
    using newScripts_members [OF ws rws] .
  have cr: "config r = (config s)\<lparr>phases := phases (config r)\<rparr>"
    by (subst req) simp
  define X where "X = map (annotatePhase (of_nat (length (survivors isIdle ws))) k') psr"
  have "w = (s\<lparr>config := (config s)\<lparr>phases := phases (config r)\<rparr>, before := None, after := None\<rparr>)
                  \<lparr>config := (config r)\<lparr>phases := Some X\<rparr>\<rparr>"
    using r(3) req by (simp add: X_def)
  also have "\<dots> = s\<lparr>config := (config s)\<lparr>phases := Some X\<rparr>, before := None, after := None\<rparr>"
    by (subst cr) simp
  finally have "w = s\<lparr>config := (config s)\<lparr>phases := Some X\<rparr>, before := None, after := None\<rparr>" .
  then show "w = s\<lparr>config := (config s)\<lparr>phases := phases (config w)\<rparr>, before := None, after := None\<rparr>"
    by simp
  have "phases (config w) = Some X" using r(3) by (simp add: X_def)
  then show "\<exists>ws r psr len k. result (newScripts s n) = Inr ws \<and> r \<in> set ws \<and> phases (config r) = Some psr
            \<and> phases (config w) = Some (map (annotatePhase len k) psr)"
    using ws rws r(2) unfolding X_def by blast
qed

lemma idle_example:
  "result (divideWork (scriptOf [emptyPhase\<lparr>arrivalRate := Some 2\<rparr>]) 4) =
     Inr [\<lparr>config = \<lparr>phases = Some [emptyPhase\<lparr>arrivalRate := Some 1, totalWorkers := Some 2, worker := Some 1\<rparr>],
                     configRest = ''target''\<rparr>,
           before = None, after = None, scriptRest = ''scenarios''\<rparr>,
          \<lparr>config = \<lparr>phases = Some [emptyPhase\<lparr>arrivalRate := Some 1, totalWorkers := Some 2, worker := Some 2\<rparr>],
                     configRest = ''target''\<rparr>,
           before = None, after = None, scriptRest = ''scenarios''\<rparr>]"
  by code_simp

lemma rate_example:
  "result (newScripts (scriptOf [emptyPhase\<lparr>arrivalRate := Some 2\<rparr>]) 4) =
     Inr [\<lparr>config = \<lparr>phases = Some [emptyPhase\<lparr>arrivalRate := Some 1\<rparr>], configRest = ''target''\<rparr>,
           before = None, after = None, scriptRest = ''scenarios''\<rparr>,
          \<lparr>config = \<lparr>phases = Some [emptyPhase\<lparr>arrivalRate := Some 1\<rparr>], configRest = ''target''\<rparr>,
           before = None, after = None, scriptRest = ''scenarios''\<rparr>,
          \<lparr>config = \<lparr>phases = Some [emptyPhase\<lparr>arrivalRate := Some 0\<rparr>], configRest = ''target''\<rparr>,
           before = None, after = None, scriptRest = ''scenarios''\<rparr>,
          \<lparr>config = \<lparr>phases = Some [emptyPhase\<lparr>arrivalRate := Some 0\<rparr>], configRest = ''target''\<rparr>,
           before = None, after = None, scriptRest = ''scenarios''\<rparr>]"
  by code_simp

subsection \<open>Further facts for the claims\<close>


lemma normalised_absent:
  "normalised ph = (if truthy (rampTo ph) \<and> arrivalRate ph = None then ph\<lparr>arrivalRate := Some 0\<rparr> else ph)"
  by (cases "arrivalRate ph") (simp_all add: normalised_def orZero_def truthyNum_def)

lemma newScripts_input:
  assumes "phases (config s) = Some ps"
  shows "input (newScripts s n) =
           s\<lparr>config := (config s)\<lparr>phases := Some (srcPhases (fst (adjustPhases n [0..<length ps] (initialState ps n))))\<rparr>\<rparr>"
    and "(\<exists>ws. result (newScripts s n) = Inr ws) = (snd (adjustPhases n [0..<length ps] (initialState ps n)) = None)"
    and "printed (newScripts s n) = console (fst (adjustPhases n [0..<length ps] (initialState ps n)))"
proof -
  obtain st err where run: "adjustPhases n [0..<length ps]
      \<lparr>srcPhases = ps, newPhases = replicate (nat n) ps, console = []\<rparr> = (st, err)"
    by (cases "adjustPhases n [0..<length ps] \<lparr>srcPhases = ps, newPhases = replicate (nat n) ps, console = []\<rparr>")
  show "input (newScripts s n) =
           s\<lparr>config := (config s)\<lparr>phases := Some (srcPhases (fst (adjustPhases n [0..<length ps] (initialState ps n))))\<rparr>\<rparr>"
    using assms run by (simp add: newScripts_def initialState_def Let_def)
  show "(\<exists>ws. result (newScripts s n) = Inr ws) = (snd (adjustPhases n [0..<length ps] (initialState ps n)) = None)"
    using assms run by (cases err) (simp_all add: newScripts_def initialState_def Let_def)
  show "printed (newScripts s n) = console (fst (adjustPhases n [0..<length ps] (initialState ps n)))"
    using assms run by (simp add: newScripts_def initialState_def Let_def)
qed

lemma no_phases_no_workers:
  assumes "n \<le> 0" "phases (config s) = None"
  shows "result (divideWorkWith isIdle s n) = Inr []"
proof -
  have "result (newScripts s n) = Inr (makeScripts s [] n)"
    using assms by (simp add: newScripts_def)
  moreover have "survivors isIdle (makeScripts s [] n) = []"
    by (rule survivors_no_phases) (use makeScripts_no_workers [OF assms(1)] in blast)
  ultimately show ?thesis by (simp add: divideWorkWith_result)
qed

lemma dispatch_by_truthiness:
  "kindOf (dispatchPhase ph) =
     specKind (ph\<lparr>rampTo := truthyNum (rampTo ph), arrivalRate := truthyNum (arrivalRate ph),
                  arrivalCount := truthyNum (arrivalCount ph), pause := truthyNum (pause ph)\<rparr>)"
  by (simp add: kindOf_def dispatchPhase_def specKind_def truthy_def split: option.splits)

lemma adjustPhases_passive:
  assumes "\<forall>i\<in>set is. dispatchPhase (srcPhases st ! i) = Unknown"
  shows "snd (adjustPhases n is st) = None"
  using assms
proof (induction "is" arbitrary: st)
  case Nil
  then show ?case by simp
next
  case (Cons j "is")
  have d: "dispatchPhase (srcPhases st ! j) = Unknown" using Cons.prems by simp
  let ?st1 = "st\<lparr>console := console st @ [srcPhases st ! j]\<rparr>"
  have step: "adjustPhase n j st = (?st1, None)" by (rule adjustPhase_Unknown [OF d])
  have "\<forall>i\<in>set is. dispatchPhase (srcPhases ?st1 ! i) = Unknown" using Cons.prems by simp
  from Cons.IH [OF this] show ?case using step by simp
qed

lemma unknown_phaseAt:
  assumes ps: "phases (config s) = Some ps" and n: "0 \<le> n" and res: "result (newScripts s n) = Inr ws"
    and p: "p < length ps" and d: "dispatchPhase (ps ! p) = Unknown" and i: "i < nat n"
  shows "phaseAt (ws ! i) p = Some (ps ! p)"
proof (rule newScripts_phaseAt [OF ps n res p])
  fix st1 st2
  assume A: "srcPhases st1 ! p = ps ! p" "\<forall>i<nat n. newPhases st1 ! i ! p = ps ! p"
    "adjustPhase n p st1 = (st2, None)" "\<forall>i<nat n. phaseAt (ws ! i) p = Some (newPhases st2 ! i ! p)"
  have "dispatchPhase (srcPhases st1 ! p) = Unknown" using d A(1) by simp
  then have "newPhases st2 = newPhases st1" using A(3) by (auto simp: adjustPhase_Unknown)
  then show ?thesis using A(2,4) i by simp
qed

lemma printed_unknown:
  assumes ps: "phases (config s) = Some ps" and res: "result (newScripts s n) = Inr ws"
  shows "printed (newScripts s n) = filter (\<lambda>ph. dispatchPhase ph = Unknown) ps"
proof -
  have ok: "snd (adjustPhases n [0..<length ps] (initialState ps n)) = None"
    using newScripts_input(2) [OF ps, of n] res by simp
  have "console (fst (adjustPhases n [0..<length ps] (initialState ps n))) =
          console (initialState ps n) @ filter (\<lambda>ph. dispatchPhase ph = Unknown)
             (map ((!) (srcPhases (initialState ps n))) [0..<length ps])"
    by (rule adjustPhases_console) (simp_all add: initialState_def ok [unfolded initialState_def])
  then show ?thesis
    unfolding newScripts_input(3) [OF ps] by (simp add: initialState_def map_nth)
qed

lemma two_phase_example:
  "result (newScripts (scriptOf [emptyPhase\<lparr>pause := Some 5\<rparr>, emptyPhase\<lparr>arrivalRate := Some 2\<rparr>]) 4) =
     Inr [\<lparr>config = \<lparr>phases = Some [emptyPhase\<lparr>pause := Some 5\<rparr>, emptyPhase\<lparr>arrivalRate := Some 1\<rparr>], configRest = ''target''\<rparr>,
           before = None, after = None, scriptRest = ''scenarios''\<rparr>,
          \<lparr>config = \<lparr>phases = Some [emptyPhase\<lparr>pause := Some 5\<rparr>, emptyPhase\<lparr>arrivalRate := Some 1\<rparr>], configRest = ''target''\<rparr>,
           before = None, after = None, scriptRest = ''scenarios''\<rparr>,
          \<lparr>config = \<lparr>phases = Some [emptyPhase\<lparr>pause := Some 5\<rparr>, emptyPhase\<lparr>arrivalRate := Some 0\<rparr>], configRest = ''target''\<rparr>,
           before = None, after = None, scriptRest = ''scenarios''\<rparr>,
          \<lparr>config = \<lparr>phases = Some [emptyPhase\<lparr>pause := Some 5\<rparr>, emptyPhase\<lparr>arrivalRate := Some 0\<rparr>], configRest = ''target''\<rparr>,
           before = None, after = None, scriptRest = ''scenarios''\<rparr>]"
  by code_simp

subsection \<open>When the scripts are built\<close>








section \<open>The claims\<close>

subsection \<open>C1: the integer split\<close>



subsection \<open>C2: idle workers are dropped, survivors are numbered\<close>

text \<open>
  Claim C2. Whenever the scripts of the workers have been built (\<open>ws\<close>, the variable
  \<^verbatim>\<open>newScripts\<close>), \<^verbatim>\<open>divideWork\<close> returns those among them that have a phase that is
  not idle, in the order of the workers, and in the \<open>k\<close>-th of them (counting from 1)
  every phase carries \<^verbatim>\<open>totalWorkers\<close>, the number of scripts returned, and
  \<^verbatim>\<open>worker = k\<close>; nothing else differs. This holds for any idle test. With the idle
  test of the specification, four workers and the single phase \<^verbatim>\<open>{arrivalRate: 2}\<close>
  give exactly two scripts, with \<^verbatim>\<open>totalWorkers = 2\<close> and \<^verbatim>\<open>worker\<close> 1 and 2.
\<close>

theorem idle_workers_dropped_survivors_annotated:
  "(result (newScripts s n) = Inr ws \<longrightarrow>
      (\<exists>out. result (divideWorkWith isIdle s n) = Inr out
         \<and> length out = length (filter (\<lambda>w. \<not> allIdle isIdle w) ws)
         \<and> (\<forall>k<length out. \<exists>psk.
               phases (config (filter (\<lambda>w. \<not> allIdle isIdle w) ws ! k)) = Some psk
             \<and> \<not> list_all isIdle psk
             \<and> out ! k = (filter (\<lambda>w. \<not> allIdle isIdle w) ws ! k)
                  \<lparr>config := (config (filter (\<lambda>w. \<not> allIdle isIdle w) ws ! k))
                     \<lparr>phases := Some (map (\<lambda>ph. ph\<lparr>totalWorkers := Some (of_nat (length out)),
                                                     worker := Some (of_nat (k + 1))\<rparr>) psk)\<rparr>\<rparr>)))
   \<and> result (divideWork (scriptOf [emptyPhase\<lparr>arrivalRate := Some 2\<rparr>]) 4) =
       Inr [\<lparr>config = \<lparr>phases = Some [emptyPhase\<lparr>arrivalRate := Some 1, totalWorkers := Some 2, worker := Some 1\<rparr>],
                       configRest = ''target''\<rparr>,
             before = None, after = None, scriptRest = ''scenarios''\<rparr>,
            \<lparr>config = \<lparr>phases = Some [emptyPhase\<lparr>arrivalRate := Some 1, totalWorkers := Some 2, worker := Some 2\<rparr>],
                       configRest = ''target''\<rparr>,
             before = None, after = None, scriptRest = ''scenarios''\<rparr>]"
proof (intro conjI impI)
  assume res: "result (newScripts s n) = Inr ws"
  let ?sv = "filter (\<lambda>w. \<not> allIdle isIdle w) ws"
  obtain out where out: "result (divideWorkWith isIdle s n) = Inr out" "length out = length ?sv"
    "\<forall>k<length out. \<exists>psk. phases (config (?sv ! k)) = Some psk
                \<and> out ! k = (?sv ! k)\<lparr>config := (config (?sv ! k))\<lparr>phases :=
                     Some (map (\<lambda>ph. ph\<lparr>totalWorkers := Some (of_nat (length out)), worker := Some (of_nat (k + 1))\<rparr>) psk)\<rparr>\<rparr>"
    using filter_annotate [OF res, of isIdle] unfolding survivors_def by blast
  have idle: "\<not> list_all isIdle psk" if "k < length out" "phases (config (?sv ! k)) = Some psk" for k psk
  proof -
    have "k < length ?sv" using that(1) out(2) by simp
    then have "?sv ! k \<in> set ?sv" by (rule nth_mem)
    then have "\<not> allIdle isIdle (?sv ! k)" by simp
    then show ?thesis using that(2) by (simp add: allIdle_def)
  qed
  show "\<exists>out. result (divideWorkWith isIdle s n) = Inr out
         \<and> length out = length ?sv
         \<and> (\<forall>k<length out. \<exists>psk.
               phases (config (?sv ! k)) = Some psk
             \<and> \<not> list_all isIdle psk
             \<and> out ! k = (?sv ! k)
                  \<lparr>config := (config (?sv ! k))
                     \<lparr>phases := Some (map (\<lambda>ph. ph\<lparr>totalWorkers := Some (of_nat (length out)),
                                                     worker := Some (of_nat (k + 1))\<rparr>) psk)\<rparr>\<rparr>)"
    using out idle by blast
next
  show "result (divideWork (scriptOf [emptyPhase\<lparr>arrivalRate := Some 2\<rparr>]) 4) =
       Inr [\<lparr>config = \<lparr>phases = Some [emptyPhase\<lparr>arrivalRate := Some 1, totalWorkers := Some 2, worker := Some 1\<rparr>],
                       configRest = ''target''\<rparr>,
             before = None, after = None, scriptRest = ''scenarios''\<rparr>,
            \<lparr>config = \<lparr>phases = Some [emptyPhase\<lparr>arrivalRate := Some 1, totalWorkers := Some 2, worker := Some 2\<rparr>],
                       configRest = ''target''\<rparr>,
             before = None, after = None, scriptRest = ''scenarios''\<rparr>]"
    by (rule idle_example)
qed

text \<open>The general part at the example: the four scripts built, and the two returned.\<close>

theorem idle_workers_dropped_survivors_annotated_witness:
  "result (newScripts (scriptOf [emptyPhase\<lparr>arrivalRate := Some 2\<rparr>]) 4) =
     Inr [\<lparr>config = \<lparr>phases = Some [emptyPhase\<lparr>arrivalRate := Some 1\<rparr>], configRest = ''target''\<rparr>,
           before = None, after = None, scriptRest = ''scenarios''\<rparr>,
          \<lparr>config = \<lparr>phases = Some [emptyPhase\<lparr>arrivalRate := Some 1\<rparr>], configRest = ''target''\<rparr>,
           before = None, after = None, scriptRest = ''scenarios''\<rparr>,
          \<lparr>config = \<lparr>phases = Some [emptyPhase\<lparr>arrivalRate := Some 0\<rparr>], configRest = ''target''\<rparr>,
           before = None, after = None, scriptRest = ''scenarios''\<rparr>,
          \<lparr>config = \<lparr>phases = Some [emptyPhase\<lparr>arrivalRate := Some 0\<rparr>], configRest = ''target''\<rparr>,
           before = None, after = None, scriptRest = ''scenarios''\<rparr>]
   \<and> (\<exists>out. result (divideWorkWith isIdlePhase (scriptOf [emptyPhase\<lparr>arrivalRate := Some 2\<rparr>]) 4) = Inr out
          \<and> length out = 2
          \<and> (\<forall>k<length out. \<forall>ph. phaseAt (out ! k) 0 = Some ph \<longrightarrow>
                totalWorkers ph = Some 2 \<and> worker ph = Some (of_nat (k + 1))))"
proof -
  let ?s = "scriptOf [emptyPhase\<lparr>arrivalRate := Some 2\<rparr>]"
  let ?w1 = "\<lparr>config = \<lparr>phases = Some [emptyPhase\<lparr>arrivalRate := Some 1\<rparr>], configRest = ''target''\<rparr>,
           before = None, after = None, scriptRest = ''scenarios''\<rparr>"
  let ?w0 = "\<lparr>config = \<lparr>phases = Some [emptyPhase\<lparr>arrivalRate := Some 0\<rparr>], configRest = ''target''\<rparr>,
           before = None, after = None, scriptRest = ''scenarios''\<rparr>"
  have sv: "filter (\<lambda>w. \<not> allIdle isIdlePhase w) [?w1, ?w1, ?w0, ?w0] = [?w1, ?w1]"
    by code_simp
  from idle_workers_dropped_survivors_annotated [of ?s 4 "[?w1, ?w1, ?w0, ?w0]" isIdlePhase] rate_example
  obtain out where out: "result (divideWorkWith isIdlePhase ?s 4) = Inr out"
     "length out = length (filter (\<lambda>w. \<not> allIdle isIdlePhase w) [?w1, ?w1, ?w0, ?w0])"
     "\<forall>k<length out. \<exists>psk.
               phases (config (filter (\<lambda>w. \<not> allIdle isIdlePhase w) [?w1, ?w1, ?w0, ?w0] ! k)) = Some psk
             \<and> \<not> list_all isIdlePhase psk
             \<and> out ! k = (filter (\<lambda>w. \<not> allIdle isIdlePhase w) [?w1, ?w1, ?w0, ?w0] ! k)
                  \<lparr>config := (config (filter (\<lambda>w. \<not> allIdle isIdlePhase w) [?w1, ?w1, ?w0, ?w0] ! k))
                     \<lparr>phases := Some (map (\<lambda>ph. ph\<lparr>totalWorkers := Some (of_nat (length out)),
                                                     worker := Some (of_nat (k + 1))\<rparr>) psk)\<rparr>\<rparr>"
    by blast
  have len: "length out = 2" using out(2) unfolding sv by simp
  have "\<forall>k<length out. \<forall>ph. phaseAt (out ! k) 0 = Some ph \<longrightarrow>
                totalWorkers ph = Some 2 \<and> worker ph = Some (of_nat (k + 1))"
  proof (intro allI impI)
    fix k ph assume k: "k < length out" and ph: "phaseAt (out ! k) 0 = Some ph"
    obtain psk where psk: "phases (config ([?w1, ?w1] ! k)) = Some psk"
      "out ! k = ([?w1, ?w1] ! k)\<lparr>config := (config ([?w1, ?w1] ! k))
                     \<lparr>phases := Some (map (\<lambda>ph. ph\<lparr>totalWorkers := Some (of_nat (length out)),
                                                     worker := Some (of_nat (k + 1))\<rparr>) psk)\<rparr>\<rparr>"
      using out(3) k unfolding sv by blast
    have "k = 0 \<or> k = 1" using k len by auto
    then have "psk = [emptyPhase\<lparr>arrivalRate := Some 1\<rparr>]" using psk(1) by auto
    then show "totalWorkers ph = Some 2 \<and> worker ph = Some (of_nat (k + 1))"
      using ph psk(2) len by (auto simp: phaseAt_def nthOpt_def)
  qed
  then show ?thesis using rate_example out(1) len by blast
qed

subsection \<open>C3: a fixed count goes to the first worker\<close>



subsection \<open>C4: a ramp is split evenly\<close>



subsection \<open>C5: what the call does to its input\<close>

text \<open>
  Claim C5, as stated, fails: the callback assigns \<^verbatim>\<open>phase.arrivalRate\<close> on the caller's
  own phase object (line 29). For a ramp without \<^verbatim>\<open>arrivalRate\<close> the caller's script
  has \<^verbatim>\<open>arrivalRate: 0\<close> afterwards.
\<close>

theorem input_mutated_counterexample:
  "input (divideWork (scriptOf [emptyPhase\<lparr>rampTo := Some 10\<rparr>]) 2) =
      scriptOf [emptyPhase\<lparr>arrivalRate := Some 0, rampTo := Some 10\<rparr>]
   \<and> input (divideWork (scriptOf [emptyPhase\<lparr>rampTo := Some 10\<rparr>]) 2) \<noteq> scriptOf [emptyPhase\<lparr>rampTo := Some 10\<rparr>]"
proof -
  have a: "input (divideWork (scriptOf [emptyPhase\<lparr>rampTo := Some 10\<rparr>]) 2) =
      scriptOf [emptyPhase\<lparr>arrivalRate := Some 0, rampTo := Some 10\<rparr>]"
    by code_simp
  have b: "scriptOf [emptyPhase\<lparr>arrivalRate := Some 0, rampTo := Some 10\<rparr>] \<noteq> scriptOf [emptyPhase\<lparr>rampTo := Some 10\<rparr>]"
    by (simp add: scriptOf_def emptyPhase_def)
  show ?thesis using a b by simp
qed

text \<open>
  Claim C5, amended. The call changes nothing in its input but the phases, and of a
  phase nothing but \<^verbatim>\<open>arrivalRate\<close>: every phase afterwards is the original or the
  original normalised, and after a call that returns every phase is the original
  normalised. Normalising changes a phase only when its \<^verbatim>\<open>rampTo\<close> is non-zero and
  it has no \<^verbatim>\<open>arrivalRate\<close>, which then becomes \<open>0\<close>.
\<close>

theorem input_changed_only_by_arrivalRate_default:
  "input (divideWorkWith isIdle s n) =
     s\<lparr>config := (config s)\<lparr>phases := phases (config (input (divideWorkWith isIdle s n)))\<rparr>\<rparr>
   \<and> (phases (config s) = None \<longrightarrow> input (divideWorkWith isIdle s n) = s)
   \<and> (\<forall>ps. phases (config s) = Some ps \<longrightarrow>
         (\<exists>ps'. phases (config (input (divideWorkWith isIdle s n))) = Some ps' \<and> length ps' = length ps
            \<and> (\<forall>q<length ps. ps' ! q = ps ! q \<or> ps' ! q = normalised (ps ! q))
            \<and> ((\<exists>out. result (divideWorkWith isIdle s n) = Inr out) \<longrightarrow> ps' = map normalised ps)))
   \<and> normalised ph =
       (if truthy (rampTo ph) \<and> arrivalRate ph = None then ph\<lparr>arrivalRate := Some 0\<rparr> else ph)"
proof -
  have none: "input (divideWorkWith isIdle s n) = s" if "phases (config s) = None"
    using that by (simp add: divideWorkWith_input newScripts_def)
  have some: "\<exists>ps'. phases (config (input (divideWorkWith isIdle s n))) = Some ps' \<and> length ps' = length ps
            \<and> (\<forall>q<length ps. ps' ! q = ps ! q \<or> ps' ! q = normalised (ps ! q))
            \<and> ((\<exists>out. result (divideWorkWith isIdle s n) = Inr out) \<longrightarrow> ps' = map normalised ps)"
    and frame: "input (divideWorkWith isIdle s n) =
     s\<lparr>config := (config s)\<lparr>phases := phases (config (input (divideWorkWith isIdle s n)))\<rparr>\<rparr>"
    if ps: "phases (config s) = Some ps" for ps
  proof -
    define ps' where "ps' = srcPhases (fst (adjustPhases n [0..<length ps] (initialState ps n)))"
    have inp: "input (divideWorkWith isIdle s n) = s\<lparr>config := (config s)\<lparr>phases := Some ps'\<rparr>\<rparr>"
      unfolding divideWorkWith_input ps'_def by (rule newScripts_input(1) [OF ps])
    have facts: "length ps' = length ps
       \<and> (\<forall>q<length ps. ps' ! q = ps ! q \<or> ps' ! q = normalised (ps ! q))
       \<and> (snd (adjustPhases n [0..<length ps] (initialState ps n)) = None \<longrightarrow>
             (\<forall>q<length ps. ps' ! q = (if q \<in> set [0..<length ps] then normalised (ps ! q) else ps ! q)))"
      using adjustPhases_srcPhases [of "[0..<length ps]" "initialState ps n" n]
      unfolding ps'_def by (simp add: initialState_def)
    have ok: "ps' = map normalised ps" if "\<exists>out. result (divideWorkWith isIdle s n) = Inr out"
    proof -
      have "\<exists>ws. result (newScripts s n) = Inr ws"
        using that by (cases "result (newScripts s n)") (simp_all add: divideWorkWith_result)
      then have "snd (adjustPhases n [0..<length ps] (initialState ps n)) = None"
        using newScripts_input(2) [OF ps] by simp
      then have "\<forall>q<length ps. ps' ! q = normalised (ps ! q)" using facts by simp
      then show ?thesis using facts by (intro nth_equalityI) simp_all
    qed
    show "\<exists>ps'. phases (config (input (divideWorkWith isIdle s n))) = Some ps' \<and> length ps' = length ps
            \<and> (\<forall>q<length ps. ps' ! q = ps ! q \<or> ps' ! q = normalised (ps ! q))
            \<and> ((\<exists>out. result (divideWorkWith isIdle s n) = Inr out) \<longrightarrow> ps' = map normalised ps)"
      using inp facts ok by (intro exI [of _ ps']) simp
    show "input (divideWorkWith isIdle s n) =
     s\<lparr>config := (config s)\<lparr>phases := phases (config (input (divideWorkWith isIdle s n)))\<rparr>\<rparr>"
      unfolding inp by simp
  qed
  have fr: "input (divideWorkWith isIdle s n) =
     s\<lparr>config := (config s)\<lparr>phases := phases (config (input (divideWorkWith isIdle s n)))\<rparr>\<rparr>"
  proof (cases "phases (config s)")
    case None
    then show ?thesis using none by simp
  next
    case (Some ps)
    then show ?thesis by (rule frame)
  qed
  show ?thesis using fr none some normalised_absent [of ph] by blast
qed

text \<open>
  The amended claim at a script with a ramp and a constant rate.
\<close>

theorem input_changed_only_by_arrivalRate_default_witness:
  "phases (config (scriptOf [emptyPhase\<lparr>rampTo := Some 10\<rparr>, emptyPhase\<lparr>arrivalRate := Some 2\<rparr>])) =
      Some [emptyPhase\<lparr>rampTo := Some 10\<rparr>, emptyPhase\<lparr>arrivalRate := Some 2\<rparr>]
   \<and> (\<exists>out. result (divideWorkWith isIdlePhase
          (scriptOf [emptyPhase\<lparr>rampTo := Some 10\<rparr>, emptyPhase\<lparr>arrivalRate := Some 2\<rparr>]) 2) = Inr out)
   \<and> phases (config (input (divideWorkWith isIdlePhase
          (scriptOf [emptyPhase\<lparr>rampTo := Some 10\<rparr>, emptyPhase\<lparr>arrivalRate := Some 2\<rparr>]) 2))) =
      Some [emptyPhase\<lparr>arrivalRate := Some 0, rampTo := Some 10\<rparr>, emptyPhase\<lparr>arrivalRate := Some 2\<rparr>]"
proof -
  let ?ps = "[emptyPhase\<lparr>rampTo := Some 10\<rparr>, emptyPhase\<lparr>arrivalRate := Some 2\<rparr>]"
  have a: "phases (config (scriptOf ?ps)) = Some ?ps" by (simp add: scriptOf_def)
  have ok: "\<exists>out. result (divideWorkWith isIdlePhase (scriptOf ?ps) 2) = Inr out"
  proof -
    have "(case result (divideWorkWith isIdlePhase (scriptOf ?ps) 2) of Inl e \<Rightarrow> False | Inr out \<Rightarrow> True)"
      by code_simp
    then show ?thesis by (cases "result (divideWorkWith isIdlePhase (scriptOf ?ps) 2)") simp_all
  qed
  from input_changed_only_by_arrivalRate_default [of isIdlePhase "scriptOf ?ps" 2 emptyPhase]
  obtain ps' where ps': "phases (config (input (divideWorkWith isIdlePhase (scriptOf ?ps) 2))) = Some ps'"
    "(\<exists>out. result (divideWorkWith isIdlePhase (scriptOf ?ps) 2) = Inr out) \<longrightarrow> ps' = map normalised ?ps"
    using a by blast
  have "map normalised ?ps = [emptyPhase\<lparr>arrivalRate := Some 0, rampTo := Some 10\<rparr>, emptyPhase\<lparr>arrivalRate := Some 2\<rparr>]"
    by (simp add: normalised_def truthy_def truthyNum_def orZero_def emptyPhase_def)
  then show ?thesis using a ok ps' by simp
qed

subsection \<open>C6: a worker count that is not positive\<close>

text \<open>
  Claim C6, as stated, fails: nothing in \<^verbatim>\<open>divideWork\<close> looks at the sign of
  \<^verbatim>\<open>numWorkers\<close>. With zero workers and a pause, and with \<open>-1\<close> workers and a fixed
  count, the call returns the empty array.
\<close>

theorem zero_workers_counterexample:
  "result (divideWork (scriptOf [emptyPhase\<lparr>pause := Some 10\<rparr>]) 0) = Inr []
   \<and> result (divideWork (scriptOf [emptyPhase\<lparr>arrivalCount := Some 50, duration := Some 60\<rparr>]) (- 1)) = Inr []"
proof -
  have a: "result (divideWork (scriptOf [emptyPhase\<lparr>pause := Some 10\<rparr>]) 0) = Inr []"
    by code_simp
  have b: "result (divideWork (scriptOf [emptyPhase\<lparr>arrivalCount := Some 50, duration := Some 60\<rparr>]) (- 1)) = Inr []"
    by code_simp
  show ?thesis using a b by simp
qed

text \<open>
  Claim C6, amended. With a worker count of zero or less the call never yields a
  script: it returns the empty array, or it throws. It returns the empty array exactly
  when no phase is a constant rate, a ramp with a non-zero \<^verbatim>\<open>maxVusers\<close> or a fixed
  count with a non-zero \<^verbatim>\<open>maxVusers\<close>; those are the phases whose call fails on the
  missing workers (the assertion of \<^verbatim>\<open>distribute\<close>, or the write to
  \<^verbatim>\<open>newPhases[0]\<close>).
\<close>

theorem no_worker_count_validation:
  "n \<le> 0 \<longrightarrow>
     (phases (config s) = None \<longrightarrow> result (divideWorkWith isIdle s n) = Inr [])
   \<and> (\<forall>ps. phases (config s) = Some ps \<longrightarrow>
         (result (divideWorkWith isIdle s n) = Inr [] \<longleftrightarrow>
            (\<forall>ph\<in>set ps. case dispatchPhase ph of
                             Ramp r \<Rightarrow> \<not> truthy (maxVusers ph)
                           | Rate a \<Rightarrow> False
                           | Count c \<Rightarrow> \<not> truthy (maxVusers ph)
                           | Paused d \<Rightarrow> True
                           | Unknown \<Rightarrow> True)))
   \<and> (result (divideWorkWith isIdle s n) \<noteq> Inr [] \<longrightarrow> (\<exists>e. result (divideWorkWith isIdle s n) = Inl e))"
proof (intro impI)
  assume n: "n \<le> 0"
  have nw: "(\<not> needsWorker ph) = (case dispatchPhase ph of
                             Ramp r \<Rightarrow> \<not> truthy (maxVusers ph)
                           | Rate a \<Rightarrow> False
                           | Count c \<Rightarrow> \<not> truthy (maxVusers ph)
                           | Paused d \<Rightarrow> True
                           | Unknown \<Rightarrow> True)" for ph :: "'a phase"
    by (simp add: needsWorker_def split: dispatch.splits)
  have a: "phases (config s) = None \<longrightarrow> result (divideWorkWith isIdle s n) = Inr []"
    using no_phases_no_workers [OF n] by blast
  have b: "\<forall>ps. phases (config s) = Some ps \<longrightarrow>
         (result (divideWorkWith isIdle s n) = Inr [] \<longleftrightarrow>
            (\<forall>ph\<in>set ps. case dispatchPhase ph of
                             Ramp r \<Rightarrow> \<not> truthy (maxVusers ph)
                           | Rate a \<Rightarrow> False
                           | Count c \<Rightarrow> \<not> truthy (maxVusers ph)
                           | Paused d \<Rightarrow> True
                           | Unknown \<Rightarrow> True))"
    using divideWork_no_workers(1) [OF n, of s _ isIdle] unfolding nw by blast
  have c: "result (divideWorkWith isIdle s n) \<noteq> Inr [] \<longrightarrow> (\<exists>e. result (divideWorkWith isIdle s n) = Inl e)"
  proof (cases "phases (config s)")
    case None
    then show ?thesis using a by simp
  next
    case (Some ps)
    then show ?thesis using divideWork_no_workers(2) [OF n Some, of isIdle] by simp
  qed
  show "(phases (config s) = None \<longrightarrow> result (divideWorkWith isIdle s n) = Inr [])
   \<and> (\<forall>ps. phases (config s) = Some ps \<longrightarrow>
         (result (divideWorkWith isIdle s n) = Inr [] \<longleftrightarrow>
            (\<forall>ph\<in>set ps. case dispatchPhase ph of
                             Ramp r \<Rightarrow> \<not> truthy (maxVusers ph)
                           | Rate a \<Rightarrow> False
                           | Count c \<Rightarrow> \<not> truthy (maxVusers ph)
                           | Paused d \<Rightarrow> True
                           | Unknown \<Rightarrow> True)))
   \<and> (result (divideWorkWith isIdle s n) \<noteq> Inr [] \<longrightarrow> (\<exists>e. result (divideWorkWith isIdle s n) = Inl e))"
    using a b c by blast
qed

text \<open>
  The amended claim at \<open>-2\<close> workers, for a pause followed by a ramp.
\<close>

theorem no_worker_count_validation_witness:
  "(- 2 :: int) \<le> 0
   \<and> phases (config (scriptOf [emptyPhase\<lparr>pause := Some 10\<rparr>, emptyPhase\<lparr>rampTo := Some 5\<rparr>])) =
       Some [emptyPhase\<lparr>pause := Some 10\<rparr>, emptyPhase\<lparr>rampTo := Some 5\<rparr>]
   \<and> result (divideWorkWith isIdlePhase (scriptOf [emptyPhase\<lparr>pause := Some 10\<rparr>, emptyPhase\<lparr>rampTo := Some 5\<rparr>]) (- 2)) = Inr []"
proof -
  let ?ps = "[emptyPhase\<lparr>pause := Some 10\<rparr>, emptyPhase\<lparr>rampTo := Some 5\<rparr>]"
  have n: "(- 2 :: int) \<le> 0" by simp
  have a: "phases (config (scriptOf ?ps)) = Some ?ps" by (simp add: scriptOf_def)
  have b: "\<forall>ph\<in>set ?ps. case dispatchPhase ph of
                             Ramp r \<Rightarrow> \<not> truthy (maxVusers ph)
                           | Rate a \<Rightarrow> False
                           | Count c \<Rightarrow> \<not> truthy (maxVusers ph)
                           | Paused d \<Rightarrow> True
                           | Unknown \<Rightarrow> True"
    by (simp add: dispatchPhase_def truthy_def truthyNum_def emptyPhase_def)
  have "result (divideWorkWith isIdlePhase (scriptOf ?ps) (- 2)) = Inr []"
    using no_worker_count_validation [rule_format, OF n, THEN conjunct2, THEN conjunct1, rule_format, OF a,
        of isIdlePhase] b by blast
  then show ?thesis using n a by blast
qed

subsection \<open>C7: which branch a phase takes\<close>

text \<open>
  Claim C7, as stated, fails: the branches test whether a field is truthy, not whether
  it is present. \<^verbatim>\<open>{arrivalRate: 5, rampTo: 0}\<close> has \<^verbatim>\<open>rampTo\<close> but takes the rate
  branch (two workers get the rates 3 and 2, not 2.5 each), and
  \<^verbatim>\<open>{arrivalRate: 0, duration: 10}\<close> has \<^verbatim>\<open>arrivalRate\<close> but is printed as unknown.
\<close>

theorem presence_dispatch_counterexample:
  "specKind (emptyPhase\<lparr>arrivalRate := Some 5, rampTo := Some 0\<rparr>) = RampingRate
   \<and> dispatchPhase (emptyPhase\<lparr>arrivalRate := Some 5, rampTo := Some 0\<rparr>) = Rate 5
   \<and> kindOf (dispatchPhase (emptyPhase\<lparr>arrivalRate := Some 5, rampTo := Some 0\<rparr>))
       \<noteq> specKind (emptyPhase\<lparr>arrivalRate := Some 5, rampTo := Some 0\<rparr>)
   \<and> result (newScripts (scriptOf [emptyPhase\<lparr>arrivalRate := Some 5, rampTo := Some 0\<rparr>]) 2) =
       Inr [\<lparr>config = \<lparr>phases = Some [emptyPhase\<lparr>arrivalRate := Some 3, rampTo := Some 0\<rparr>], configRest = ''target''\<rparr>,
             before = None, after = None, scriptRest = ''scenarios''\<rparr>,
            \<lparr>config = \<lparr>phases = Some [emptyPhase\<lparr>arrivalRate := Some 2, rampTo := Some 0\<rparr>], configRest = ''target''\<rparr>,
             before = None, after = None, scriptRest = ''scenarios''\<rparr>]
   \<and> specKind (emptyPhase\<lparr>arrivalRate := Some 0, duration := Some 10\<rparr>) = ConstantRate
   \<and> dispatchPhase (emptyPhase\<lparr>arrivalRate := Some 0, duration := Some 10\<rparr>) = Unknown
   \<and> printed (newScripts (scriptOf [emptyPhase\<lparr>arrivalRate := Some 0, duration := Some 10\<rparr>]) 2) =
       [emptyPhase\<lparr>arrivalRate := Some 0, duration := Some 10\<rparr>]"
proof -
  have a: "specKind (emptyPhase\<lparr>arrivalRate := Some 5, rampTo := Some 0\<rparr>) = RampingRate"
    by (simp add: specKind_def emptyPhase_def)
  have b: "dispatchPhase (emptyPhase\<lparr>arrivalRate := Some 5, rampTo := Some 0\<rparr>) = Rate 5"
    by (simp add: dispatchPhase_def truthy_def truthyNum_def emptyPhase_def)
  have c: "kindOf (dispatchPhase (emptyPhase\<lparr>arrivalRate := Some 5, rampTo := Some 0\<rparr>))
       \<noteq> specKind (emptyPhase\<lparr>arrivalRate := Some 5, rampTo := Some 0\<rparr>)"
    unfolding a b by (simp add: kindOf_def)
  have d: "result (newScripts (scriptOf [emptyPhase\<lparr>arrivalRate := Some 5, rampTo := Some 0\<rparr>]) 2) =
       Inr [\<lparr>config = \<lparr>phases = Some [emptyPhase\<lparr>arrivalRate := Some 3, rampTo := Some 0\<rparr>], configRest = ''target''\<rparr>,
             before = None, after = None, scriptRest = ''scenarios''\<rparr>,
            \<lparr>config = \<lparr>phases = Some [emptyPhase\<lparr>arrivalRate := Some 2, rampTo := Some 0\<rparr>], configRest = ''target''\<rparr>,
             before = None, after = None, scriptRest = ''scenarios''\<rparr>]"
    by code_simp
  have e: "specKind (emptyPhase\<lparr>arrivalRate := Some 0, duration := Some 10\<rparr>) = ConstantRate"
    by (simp add: specKind_def emptyPhase_def)
  have f: "dispatchPhase (emptyPhase\<lparr>arrivalRate := Some 0, duration := Some 10\<rparr>) = Unknown"
    by (simp add: dispatchPhase_def truthy_def truthyNum_def emptyPhase_def)
  have g: "printed (newScripts (scriptOf [emptyPhase\<lparr>arrivalRate := Some 0, duration := Some 10\<rparr>]) 2) =
       [emptyPhase\<lparr>arrivalRate := Some 0, duration := Some 10\<rparr>]"
    by code_simp
  show ?thesis using a b c d e f g by blast
qed

text \<open>
  Claim C7, amended. The branch taken is the kind that the order of the specification
  gives once every field that is zero counts as absent. An unknown phase is printed and
  nothing else happens in its call, which does not throw; after a call that returns, the
  phases printed are the unknown ones, in order, and every worker has the unknown phase
  itself at its position; and a script with unknown phases only always returns.
\<close>

theorem dispatch_by_nonzero_fields:
  "kindOf (dispatchPhase ph) =
     specKind (ph\<lparr>rampTo := truthyNum (rampTo ph), arrivalRate := truthyNum (arrivalRate ph),
                  arrivalCount := truthyNum (arrivalCount ph), pause := truthyNum (pause ph)\<rparr>)
   \<and> (dispatchPhase (srcPhases st ! idx) = Unknown \<longrightarrow>
        adjustPhase n idx st = (st\<lparr>console := console st @ [srcPhases st ! idx]\<rparr>, None))
   \<and> (phases (config s) = Some ps \<and> result (newScripts s n) = Inr ws \<longrightarrow>
        printed (newScripts s n) = filter (\<lambda>ph. dispatchPhase ph = Unknown) ps
      \<and> (\<forall>p i. 0 \<le> n \<and> p < length ps \<and> dispatchPhase (ps ! p) = Unknown \<and> i < nat n \<longrightarrow>
             phaseAt (ws ! i) p = Some (ps ! p)))
   \<and> (phases (config s) = Some ps \<and> (\<forall>ph\<in>set ps. dispatchPhase ph = Unknown) \<longrightarrow>
        (\<exists>vs. result (newScripts s n) = Inr vs))"
proof -
  have a: "dispatchPhase (srcPhases st ! idx) = Unknown \<longrightarrow>
        adjustPhase n idx st = (st\<lparr>console := console st @ [srcPhases st ! idx]\<rparr>, None)"
    using adjustPhase_Unknown by blast
  have b: "printed (newScripts s n) = filter (\<lambda>ph. dispatchPhase ph = Unknown) ps
      \<and> (\<forall>p i. 0 \<le> n \<and> p < length ps \<and> dispatchPhase (ps ! p) = Unknown \<and> i < nat n \<longrightarrow>
             phaseAt (ws ! i) p = Some (ps ! p))"
    if "phases (config s) = Some ps \<and> result (newScripts s n) = Inr ws"
    using that printed_unknown [of s ps n ws] unknown_phaseAt [of s ps n ws] by blast
  have c: "\<exists>vs. result (newScripts s n) = Inr vs"
    if h: "phases (config s) = Some ps \<and> (\<forall>ph\<in>set ps. dispatchPhase ph = Unknown)"
  proof -
    have "\<forall>i\<in>set [0..<length ps]. dispatchPhase (srcPhases (initialState ps n) ! i) = Unknown"
      using h by (simp add: initialState_def)
    then have "snd (adjustPhases n [0..<length ps] (initialState ps n)) = None"
      by (rule adjustPhases_passive)
    then show ?thesis using newScripts_input(2) [of s ps n] h by blast
  qed
  show ?thesis using dispatch_by_truthiness [of ph] a b c by blast
qed

text \<open>
  The amended claim at the single phase \<^verbatim>\<open>{duration: 10}\<close> and two workers.
\<close>

theorem dispatch_by_nonzero_fields_witness:
  "dispatchPhase (emptyPhase\<lparr>duration := Some 10\<rparr>) = Unknown
   \<and> phases (config (scriptOf [emptyPhase\<lparr>duration := Some 10\<rparr>])) = Some [emptyPhase\<lparr>duration := Some 10\<rparr>]
   \<and> (\<exists>ws. result (newScripts (scriptOf [emptyPhase\<lparr>duration := Some 10\<rparr>]) 2) = Inr ws
         \<and> printed (newScripts (scriptOf [emptyPhase\<lparr>duration := Some 10\<rparr>]) 2) = [emptyPhase\<lparr>duration := Some 10\<rparr>]
         \<and> phaseAt (ws ! 1) 0 = Some (emptyPhase\<lparr>duration := Some 10\<rparr>))"
proof -
  let ?ph = "emptyPhase\<lparr>duration := Some 10\<rparr>"
  have d: "dispatchPhase ?ph = Unknown"
    by (simp add: dispatchPhase_def truthy_def truthyNum_def emptyPhase_def)
  have a: "phases (config (scriptOf [?ph])) = Some [?ph]" by (simp add: scriptOf_def)
  have all: "\<forall>ph\<in>set [?ph]. dispatchPhase ph = Unknown" using d by simp
  note inst = dispatch_by_nonzero_fields [where s = "scriptOf [?ph]" and ps = "[?ph]" and n = 2]
  obtain ws where ws: "result (newScripts (scriptOf [?ph]) 2) = Inr ws"
    using inst [THEN conjunct2, THEN conjunct2, THEN conjunct2] a all by blast
  have pr: "printed (newScripts (scriptOf [?ph]) 2) = filter (\<lambda>ph. dispatchPhase ph = Unknown) [?ph]"
    and at: "\<forall>p i. (0::int) \<le> 2 \<and> p < length [?ph] \<and> dispatchPhase ([?ph] ! p) = Unknown \<and> i < nat 2 \<longrightarrow>
             phaseAt (ws ! i) p = Some ([?ph] ! p)"
    using dispatch_by_nonzero_fields [where s = "scriptOf [?ph]" and ps = "[?ph]" and n = 2 and ws = ws,
        THEN conjunct2, THEN conjunct2, THEN conjunct1] a ws by blast+
  have "phaseAt (ws ! 1) 0 = Some ?ph" using at [rule_format, of 0 1] d by simp
  moreover have "printed (newScripts (scriptOf [?ph]) 2) = [?ph]" using pr d by simp
  ultimately show ?thesis using d a ws by blast
qed

subsection \<open>C8: the rest of the script\<close>

text \<open>
  Claim C8. Every script built, and every script returned, is the original script with
  another phase list and without \<^verbatim>\<open>before\<close> and \<^verbatim>\<open>after\<close>: all other properties of
  the script and of its \<^verbatim>\<open>config\<close> are those of the original.
\<close>

theorem worker_scripts_differ_only_in_phases_and_hooks:
  "(result (newScripts s n) = Inr ws \<and> w \<in> set ws \<longrightarrow>
      before w = None \<and> after w = None
    \<and> scriptRest w = scriptRest s \<and> configRest (config w) = configRest (config s)
    \<and> w = s\<lparr>config := (config s)\<lparr>phases := phases (config w)\<rparr>, before := None, after := None\<rparr>)
   \<and> (result (divideWorkWith isIdle s n) = Inr out \<and> v \<in> set out \<longrightarrow>
      before v = None \<and> after v = None
    \<and> scriptRest v = scriptRest s \<and> configRest (config v) = configRest (config s)
    \<and> v = s\<lparr>config := (config s)\<lparr>phases := phases (config v)\<rparr>, before := None, after := None\<rparr>)"
proof (rule conjI; rule impI)
  assume h: "result (newScripts s n) = Inr ws \<and> w \<in> set ws"
  then have e: "w = s\<lparr>config := (config s)\<lparr>phases := phases (config w)\<rparr>, before := None, after := None\<rparr>"
    using newScripts_members [of s n ws w] by blast
  show "before w = None \<and> after w = None
    \<and> scriptRest w = scriptRest s \<and> configRest (config w) = configRest (config s)
    \<and> w = s\<lparr>config := (config s)\<lparr>phases := phases (config w)\<rparr>, before := None, after := None\<rparr>"
  proof (intro conjI)
    show "before w = None" by (subst e) simp
    show "after w = None" by (subst e) simp
    show "scriptRest w = scriptRest s" by (subst e) simp
    show "configRest (config w) = configRest (config s)" by (subst e) simp
    show "w = s\<lparr>config := (config s)\<lparr>phases := phases (config w)\<rparr>, before := None, after := None\<rparr>" by (rule e)
  qed
next
  assume h: "result (divideWorkWith isIdle s n) = Inr out \<and> v \<in> set out"
  then have e: "v = s\<lparr>config := (config s)\<lparr>phases := phases (config v)\<rparr>, before := None, after := None\<rparr>"
    using divideWork_members(1) [of isIdle s n out v] by blast
  show "before v = None \<and> after v = None
    \<and> scriptRest v = scriptRest s \<and> configRest (config v) = configRest (config s)
    \<and> v = s\<lparr>config := (config s)\<lparr>phases := phases (config v)\<rparr>, before := None, after := None\<rparr>"
  proof (intro conjI)
    show "before v = None" by (subst e) simp
    show "after v = None" by (subst e) simp
    show "scriptRest v = scriptRest s" by (subst e) simp
    show "configRest (config v) = configRest (config s)" by (subst e) simp
    show "v = s\<lparr>config := (config s)\<lparr>phases := phases (config v)\<rparr>, before := None, after := None\<rparr>" by (rule e)
  qed
qed

text \<open>
  The theorem at a script that has both hooks: the script returned has none.
\<close>

theorem worker_scripts_differ_only_in_phases_and_hooks_witness:
  "before (scriptOf [emptyPhase\<lparr>arrivalRate := Some 2\<rparr>]) = Some ''before hook''
   \<and> (\<exists>out v. result (divideWorkWith isIdlePhase (scriptOf [emptyPhase\<lparr>arrivalRate := Some 2\<rparr>]) 4) = Inr out
         \<and> v \<in> set out \<and> before v = None \<and> after v = None \<and> scriptRest v = ''scenarios''
         \<and> configRest (config v) = ''target'')"
proof -
  let ?s = "scriptOf [emptyPhase\<lparr>arrivalRate := Some 2\<rparr>]"
  let ?v = "\<lparr>config = \<lparr>phases = Some [emptyPhase\<lparr>arrivalRate := Some 1, totalWorkers := Some 2, worker := Some 1\<rparr>],
                     configRest = ''target''\<rparr>,
           before = None, after = None, scriptRest = ''scenarios''\<rparr>"
  let ?v' = "\<lparr>config = \<lparr>phases = Some [emptyPhase\<lparr>arrivalRate := Some 1, totalWorkers := Some 2, worker := Some 2\<rparr>],
                     configRest = ''target''\<rparr>,
           before = None, after = None, scriptRest = ''scenarios''\<rparr>"
  have r: "result (divideWorkWith isIdlePhase ?s 4) = Inr [?v, ?v']"
    using idle_example by (simp add: divideWork_def)
  have m: "?v \<in> set [?v, ?v']" by simp
  have "before ?v = None \<and> after ?v = None
      \<and> scriptRest ?v = scriptRest ?s \<and> configRest (config ?v) = configRest (config ?s)"
    using worker_scripts_differ_only_in_phases_and_hooks
      [where isIdle = isIdlePhase and s = ?s and n = 4 and out = "[?v, ?v']" and v = ?v, THEN conjunct2] r m
    by blast
  then have "before ?v = None \<and> after ?v = None \<and> scriptRest ?v = ''scenarios'' \<and> configRest (config ?v) = ''target''"
    by (simp add: scriptOf_def)
  moreover have "before ?s = Some ''before hook''" by (simp add: scriptOf_def)
  ultimately show ?thesis using r m by blast
qed

subsection \<open>C9: as many phases, in the same order\<close>

text \<open>
  Claim C9. For a positive worker count there is one script per worker before the
  filter, and every script, before and after the filter, has as many phases as the
  original; a script returned has the phases of one of the scripts built, each with its
  two annotations. The phase of worker \<open>i\<close> at position \<open>p\<close> exists and depends on the
  original phase at \<open>p\<close> only: two scripts with the same phase at \<open>p\<close> give worker
  \<open>i\<close> the same phase at \<open>p\<close>.
\<close>

theorem phase_count_and_order_preserved:
  "phases (config s) = Some ps \<and> 0 < n \<longrightarrow>
     (\<forall>ws. result (newScripts s n) = Inr ws \<longrightarrow>
        length ws = nat n
      \<and> (\<forall>w\<in>set ws. \<exists>ps'. phases (config w) = Some ps' \<and> length ps' = length ps))
   \<and> (\<forall>out. result (divideWorkWith isIdle s n) = Inr out \<longrightarrow>
        (\<forall>w\<in>set out. \<exists>ps' ws r psr len k.
             phases (config w) = Some ps' \<and> length ps' = length ps
           \<and> result (newScripts s n) = Inr ws \<and> r \<in> set ws \<and> phases (config r) = Some psr
           \<and> ps' = map (\<lambda>ph. ph\<lparr>totalWorkers := Some len, worker := Some k\<rparr>) psr))
   \<and> (\<forall>t qs ws vs p i.
         phases (config t) = Some qs \<and> p < length ps \<and> p < length qs \<and> ps ! p = qs ! p
       \<and> result (newScripts s n) = Inr ws \<and> result (newScripts t n) = Inr vs \<and> i < nat n \<longrightarrow>
         phaseAt (ws ! i) p = phaseAt (vs ! i) p \<and> phaseAt (ws ! i) p \<noteq> None)"
proof (intro impI)
  assume h: "phases (config s) = Some ps \<and> 0 < n"
  then have ps: "phases (config s) = Some ps" and n: "0 \<le> n" by simp_all
  have a: "length ws = nat n \<and> (\<forall>w\<in>set ws. \<exists>ps'. phases (config w) = Some ps' \<and> length ps' = length ps)"
    if "result (newScripts s n) = Inr ws" for ws
    using newScripts_phase_count [OF ps n that] by blast
  have b: "\<exists>ps' ws r psr len k.
             phases (config w) = Some ps' \<and> length ps' = length ps
           \<and> result (newScripts s n) = Inr ws \<and> r \<in> set ws \<and> phases (config r) = Some psr
           \<and> ps' = map (\<lambda>ph. ph\<lparr>totalWorkers := Some len, worker := Some k\<rparr>) psr"
    if res: "result (divideWorkWith isIdle s n) = Inr out" and w: "w \<in> set out" for out w
  proof -
    obtain ws r psr len k where m: "result (newScripts s n) = Inr ws" "r \<in> set ws" "phases (config r) = Some psr"
      "phases (config w) = Some (map (annotatePhase len k) psr)"
      using divideWork_members(2) [OF res w] by blast
    have l: "length psr = length ps" using a [OF m(1)] m(2,3) by auto
    have ap: "annotatePhase len k = (\<lambda>ph. ph\<lparr>totalWorkers := Some len, worker := Some k\<rparr>)"
      by (rule ext) (simp add: annotatePhase_def)
    define ps' where "ps' = map (\<lambda>ph. ph\<lparr>totalWorkers := Some len, worker := Some k\<rparr>) psr"
    have "phases (config w) = Some ps'" using m(4) unfolding ap ps'_def .
    moreover have "length ps' = length ps" using l by (simp add: ps'_def)
    ultimately show ?thesis using m(1,2,3) ps'_def by blast
  qed
  have c: "phaseAt (ws ! i) p = phaseAt (vs ! i) p \<and> phaseAt (ws ! i) p \<noteq> None"
    if g: "phases (config t) = Some qs \<and> p < length ps \<and> p < length qs \<and> ps ! p = qs ! p
       \<and> result (newScripts s n) = Inr ws \<and> result (newScripts t n) = Inr vs \<and> i < nat n"
    for t :: "'a script" and qs ws vs p i
  proof -
    have e: "phaseAt (ws ! i) p = phaseAt (vs ! i) p"
      using phaseAt_determined [OF ps _ _ _ _ n, of t qs p p ws vs i] g by blast
    have "w \<in> set ws \<Longrightarrow> \<exists>ps'. phases (config w) = Some ps' \<and> length ps' = length ps" for w
      using a g by blast
    moreover have "ws ! i \<in> set ws" using a g by simp
    ultimately obtain ps' where "phases (config (ws ! i)) = Some ps'" "length ps' = length ps" by blast
    then have "phaseAt (ws ! i) p \<noteq> None" using g by (simp add: phaseAt_def nthOpt_def)
    then show ?thesis using e by simp
  qed
  show "(\<forall>ws. result (newScripts s n) = Inr ws \<longrightarrow>
        length ws = nat n
      \<and> (\<forall>w\<in>set ws. \<exists>ps'. phases (config w) = Some ps' \<and> length ps' = length ps))
   \<and> (\<forall>out. result (divideWorkWith isIdle s n) = Inr out \<longrightarrow>
        (\<forall>w\<in>set out. \<exists>ps' ws r psr len k.
             phases (config w) = Some ps' \<and> length ps' = length ps
           \<and> result (newScripts s n) = Inr ws \<and> r \<in> set ws \<and> phases (config r) = Some psr
           \<and> ps' = map (\<lambda>ph. ph\<lparr>totalWorkers := Some len, worker := Some k\<rparr>) psr))
   \<and> (\<forall>t qs ws vs p i.
         phases (config t) = Some qs \<and> p < length ps \<and> p < length qs \<and> ps ! p = qs ! p
       \<and> result (newScripts s n) = Inr ws \<and> result (newScripts t n) = Inr vs \<and> i < nat n \<longrightarrow>
         phaseAt (ws ! i) p = phaseAt (vs ! i) p \<and> phaseAt (ws ! i) p \<noteq> None)"
    using a b c by blast
qed

text \<open>
  The theorem at a script of two phases and four workers.
\<close>

theorem phase_count_and_order_preserved_witness:
  "phases (config (scriptOf [emptyPhase\<lparr>pause := Some 5\<rparr>, emptyPhase\<lparr>arrivalRate := Some 2\<rparr>])) =
      Some [emptyPhase\<lparr>pause := Some 5\<rparr>, emptyPhase\<lparr>arrivalRate := Some 2\<rparr>]
   \<and> (0::int) < 4
   \<and> (\<exists>ws. result (newScripts (scriptOf [emptyPhase\<lparr>pause := Some 5\<rparr>, emptyPhase\<lparr>arrivalRate := Some 2\<rparr>]) 4) = Inr ws
         \<and> length ws = 4
         \<and> (\<forall>w\<in>set ws. \<exists>ps'. phases (config w) = Some ps' \<and> length ps' = 2))"
proof -
  let ?ps = "[emptyPhase\<lparr>pause := Some 5\<rparr>, emptyPhase\<lparr>arrivalRate := Some 2\<rparr>]"
  have h: "phases (config (scriptOf ?ps)) = Some ?ps \<and> (0::int) < 4" by (simp add: scriptOf_def)
  obtain ws where ws: "result (newScripts (scriptOf ?ps) 4) = Inr ws"
    using two_phase_example by blast
  have "length ws = nat 4 \<and> (\<forall>w\<in>set ws. \<exists>ps'. phases (config w) = Some ps' \<and> length ps' = length ?ps)"
    using phase_count_and_order_preserved [where isIdle = isIdlePhase, rule_format, OF h, THEN conjunct1, rule_format, OF ws] .
  then have "length ws = 4 \<and> (\<forall>w\<in>set ws. \<exists>ps'. phases (config w) = Some ps' \<and> length ps' = 2)"
    by (simp add: numeral_2_eq_2)
  then show ?thesis using h ws by blast
qed

subsection \<open>C10: a positive ramp keeps every worker active\<close>



end
